theory Spec2Isabelle
  imports
    Main
    "HOL-Library.AList"
    "HOL-Library.Multiset"
    "HOL-Library.Sublist"
    "HOL-Library.Word"
begin

section \<open>Go values used by the unpacker\<close>

text \<open>
  A byte slice is a list of 8-bit words. \<open>bytes.Equal\<close> does not distinguish a nil
  slice from an empty one, so both are the empty list and \<open>bytes.Equal\<close> is list
  equality.
\<close>

type_synonym byte = "8 word"

text \<open>
  A Go map value is either nil or a table of entries. The entries are kept in the order
  in which a \<open>range\<close> statement visits them; a Go map never holds a key twice, which
  is the invariant \<open>wf_map\<close>. \<open>len\<close>, indexing with the comma-ok form and \<open>range\<close>
  all treat the nil map as an empty one.
\<close>

datatype ('k, 'v) gomap = Nil_map | Make_map "('k \<times> 'v) list"

fun entries :: "('k, 'v) gomap \<Rightarrow> ('k \<times> 'v) list" where
  "entries Nil_map = []"
| "entries (Make_map kvs) = kvs"

definition len :: "('k, 'v) gomap \<Rightarrow> nat" where
  "len m = length (entries m)"

definition lookup :: "('k, 'v) gomap \<Rightarrow> 'k \<Rightarrow> 'v option" where
  "lookup m k = map_of (entries m) k"

definition wf_map :: "('k, 'v) gomap \<Rightarrow> bool" where
  "wf_map m = distinct (map fst (entries m))"

text \<open>
  The order in which \<open>range\<close> visits a map is chosen by the Go runtime. A choice
  sequence \<open>seed\<close> selects it: each number picks the next entry among those not yet
  visited. Every seed yields a permutation of the entries.
\<close>

fun range_order :: "nat list \<Rightarrow> 'a list \<Rightarrow> 'a list" where
  "range_order [] xs = xs"
| "range_order (n # ns) xs =
     (if xs = [] then []
      else let i = n mod length xs
           in xs ! i # range_order ns (take i xs @ drop (Suc i) xs))"

section \<open>Map equality (\<open>stringMapsEqual\<close>, \<open>bytesMapsEqual\<close>)\<close>

text \<open>
  Both functions compare the lengths first and then range over \<open>a\<close>, returning false
  at the first key that \<open>b\<close> lacks or maps to a different value.
\<close>

fun stringMapsEqual_range :: "(string \<times> string) list \<Rightarrow> (string, string) gomap \<Rightarrow> bool" where
  "stringMapsEqual_range [] b = True"
| "stringMapsEqual_range ((ka, va) # rest) b =
     (case lookup b ka of
        None \<Rightarrow> False
      | Some vb \<Rightarrow> if va \<noteq> vb then False else stringMapsEqual_range rest b)"

definition stringMapsEqual :: "(string, string) gomap \<Rightarrow> (string, string) gomap \<Rightarrow> bool" where
  "stringMapsEqual a b =
     (if len a \<noteq> len b then False else stringMapsEqual_range (entries a) b)"

fun bytesMapsEqual_range :: "(string \<times> byte list) list \<Rightarrow> (string, byte list) gomap \<Rightarrow> bool" where
  "bytesMapsEqual_range [] b = True"
| "bytesMapsEqual_range ((ka, va) # rest) b =
     (case lookup b ka of
        None \<Rightarrow> False
      | Some vb \<Rightarrow> if \<not> (va = vb) then False else bytesMapsEqual_range rest b)"

definition bytesMapsEqual :: "(string, byte list) gomap \<Rightarrow> (string, byte list) gomap \<Rightarrow> bool" where
  "bytesMapsEqual a b =
     (if len a \<noteq> len b then False else bytesMapsEqual_range (entries a) b)"

section \<open>ConfigMaps and the remote client\<close>

record OwnerReference =
  ref_APIVersion :: string
  ref_Kind :: string
  ref_Name :: string
  ref_UID :: string
  ref_Controller :: bool
  ref_BlockOwnerDeletion :: bool

text \<open>The fields of \<open>corev1.ConfigMap\<close> that the unpacker reads or writes.\<close>

record ConfigMap =
  Name :: string
  Namespace :: string
  Labels :: "(string, string) gomap"
  Annotations :: "(string, string) gomap"
  OwnerReferences :: "OwnerReference list"
  Immutable :: "bool option"
  Data :: "(string, string) gomap"
  BinaryData :: "(string, byte list) gomap"

text \<open>\<open>types.NamespacedName\<close>: the namespace first, then the name.\<close>

type_synonym NamespacedName = "string \<times> string"

definition key_of :: "ConfigMap \<Rightarrow> NamespacedName" where
  "key_of cm = (Namespace cm, Name cm)"

text \<open>
  The controller-runtime client is a collaborator of the unpacker. A request either
  succeeds (\<open>None\<close>) or returns an error, and it may change the state of the store.
  The unpacker is modelled against an arbitrary client: a function from the store's state
  and a request to the answer and the next state.
\<close>

datatype client_error = NotFound | AlreadyExists | OtherError string

datatype request = Create ConfigMap | Delete ConfigMap

type_synonym 'st client = "'st \<Rightarrow> request \<Rightarrow> client_error option \<times> 'st"

type_synonym call = "request \<times> client_error option"

text \<open>\<open>client.IgnoreNotFound\<close> turns a not-found error into nil and keeps every other one.\<close>

definition IgnoreNotFound :: "client_error option \<Rightarrow> client_error option" where
  "IgnoreNotFound err = (case err of Some NotFound \<Rightarrow> None | _ \<Rightarrow> err)"

section \<open>The reconciler (\<open>ensureDesiredConfigMaps\<close>)\<close>

text \<open>
  The errors \<open>ensureDesiredConfigMaps\<close> returns: \<open>"delete configmap: %v"\<close> and
  \<open>"create configmap: %v"\<close>, each wrapping the client's error.
\<close>

datatype ensure_error = Delete_configmap client_error | Create_configmap client_error

text \<open>
  The first loop builds \<open>actualCms\<close>, the index of the actual ConfigMaps by
  namespace and name; a later ConfigMap with the same key overwrites an earlier one.
\<close>

fun index_actual ::
  "ConfigMap list \<Rightarrow> (NamespacedName \<times> ConfigMap) list \<Rightarrow> (NamespacedName \<times> ConfigMap) list"
where
  "index_actual [] actualCms = actualCms"
| "index_actual (cm # rest) actualCms =
     index_actual rest (AList.update (Namespace cm, Name cm) cm actualCms)"

text \<open>
  \<open>u.Client.Delete(ctx, &ecm)\<close> followed by the test \<open>client.IgnoreNotFound(err) != nil\<close>,
  and \<open>u.Client.Create(ctx, &cm)\<close> followed by \<open>err != nil\<close>. Each returns the error
  that ends the run (if any), the store's next state and the call it made with the
  client's answer.
\<close>

definition delete_configmap ::
  "'st client \<Rightarrow> ConfigMap \<Rightarrow> 'st \<Rightarrow> ensure_error option \<times> 'st \<times> call list"
where
  "delete_configmap cl ecm st =
     (case cl st (Delete ecm) of
        (err, st') \<Rightarrow>
          (case IgnoreNotFound err of
             Some e \<Rightarrow> (Some (Delete_configmap e), st', [(Delete ecm, err)])
           | None \<Rightarrow> (None, st', [(Delete ecm, err)])))"

definition create_configmap ::
  "'st client \<Rightarrow> ConfigMap \<Rightarrow> 'st \<Rightarrow> ensure_error option \<times> 'st \<times> call list"
where
  "create_configmap cl cm st =
     (case cl st (Create cm) of
        (err, st') \<Rightarrow>
          (case err of
             Some e \<Rightarrow> (Some (Create_configmap e), st', [(Create cm, err)])
           | None \<Rightarrow> (None, st', [(Create cm, err)])))"

text \<open>The comparison of an existing ConfigMap with a desired one, as the loop writes it.\<close>

definition same_configmap :: "ConfigMap \<Rightarrow> ConfigMap \<Rightarrow> bool" where
  "same_configmap ecm cm =
     (stringMapsEqual (Labels ecm) (Labels cm) \<and>
      stringMapsEqual (Annotations ecm) (Annotations cm) \<and>
      stringMapsEqual (Data ecm) (Data cm) \<and>
      bytesMapsEqual (BinaryData ecm) (BinaryData cm))"

text \<open>
  One iteration of the loop over \<open>desired\<close>. An existing ConfigMap equal to the desired
  one is removed from \<open>actualCms\<close> and nothing is sent. An existing one that differs is
  deleted and the desired one created; \<open>actualCms\<close> keeps its entry. With no existing
  ConfigMap the desired one is created.
\<close>

definition ensure_one ::
  "'st client \<Rightarrow> ConfigMap \<Rightarrow> (NamespacedName \<times> ConfigMap) list \<Rightarrow> 'st \<Rightarrow>
     ensure_error option \<times> (NamespacedName \<times> ConfigMap) list \<times> 'st \<times> call list"
where
  "ensure_one cl cm actualCms st =
     (let key = (Namespace cm, Name cm) in
      case map_of actualCms key of
        Some ecm \<Rightarrow>
          if same_configmap ecm cm then (None, AList.delete key actualCms, st, [])
          else
            (case delete_configmap cl ecm st of
               (Some e, st1, tr1) \<Rightarrow> (Some e, actualCms, st1, tr1)
             | (None, st1, tr1) \<Rightarrow>
                 (case create_configmap cl cm st1 of
                    (r, st2, tr2) \<Rightarrow> (r, actualCms, st2, tr1 @ tr2)))
      | None \<Rightarrow>
          (case create_configmap cl cm st of
             (r, st2, tr2) \<Rightarrow> (r, actualCms, st2, tr2)))"

fun ensure_desired ::
  "'st client \<Rightarrow> ConfigMap list \<Rightarrow> (NamespacedName \<times> ConfigMap) list \<Rightarrow> 'st \<Rightarrow>
     ensure_error option \<times> (NamespacedName \<times> ConfigMap) list \<times> 'st \<times> call list"
where
  "ensure_desired cl [] actualCms st = (None, actualCms, st, [])"
| "ensure_desired cl (cm # rest) actualCms st =
     (case ensure_one cl cm actualCms st of
        (Some e, actualCms1, st1, tr1) \<Rightarrow> (Some e, actualCms1, st1, tr1)
      | (None, actualCms1, st1, tr1) \<Rightarrow>
          (case ensure_desired cl rest actualCms1 st1 of
             (r, actualCms2, st2, tr2) \<Rightarrow> (r, actualCms2, st2, tr1 @ tr2)))"

text \<open>The last loop: every ConfigMap left in \<open>actualCms\<close> is deleted.\<close>

fun delete_remaining ::
  "'st client \<Rightarrow> ConfigMap list \<Rightarrow> 'st \<Rightarrow> ensure_error option \<times> 'st \<times> call list"
where
  "delete_remaining cl [] st = (None, st, [])"
| "delete_remaining cl (ecm # rest) st =
     (case delete_configmap cl ecm st of
        (Some e, st1, tr1) \<Rightarrow> (Some e, st1, tr1)
      | (None, st1, tr1) \<Rightarrow>
          (case delete_remaining cl rest st1 of
             (r, st2, tr2) \<Rightarrow> (r, st2, tr1 @ tr2)))"

text \<open>
  \<open>ensureDesiredConfigMaps\<close>. The result is the returned error (\<open>None\<close> for nil), the
  state of the store when the function returns, and the calls made to the client in
  order, each with the client's answer. \<open>seed\<close> fixes the order in which the last loop
  ranges over \<open>actualCms\<close>.
\<close>

definition ensureDesiredConfigMaps ::
  "'st client \<Rightarrow> nat list \<Rightarrow> ConfigMap list \<Rightarrow> ConfigMap list \<Rightarrow> 'st \<Rightarrow>
     ensure_error option \<times> 'st \<times> call list"
where
  "ensureDesiredConfigMaps cl seed actual desired st =
     (case ensure_desired cl desired (index_actual actual []) st of
        (Some e, actualCms, st1, tr1) \<Rightarrow> (Some e, st1, tr1)
      | (None, actualCms, st1, tr1) \<Rightarrow>
          (case delete_remaining cl (map snd (range_order seed actualCms)) st1 of
             (r, st2, tr2) \<Rightarrow> (r, st2, tr1 @ tr2)))"

text \<open>
  A remote store that fails for no outside reason, keyed by namespace and name: a create
  at a key that is taken is refused, a delete at a key that is free answers not-found,
  and a delete removes whatever ConfigMap is stored under the namespace and name of its
  argument (the client sends no precondition on the UID or the resource version).
\<close>

type_synonym cluster = "NamespacedName \<Rightarrow> ConfigMap option"

fun apiserver :: "cluster client" where
  "apiserver st (Create cm) =
     (case st (key_of cm) of
        Some other \<Rightarrow> (Some AlreadyExists, st)
      | None \<Rightarrow> (None, st(key_of cm \<mapsto> cm)))"
| "apiserver st (Delete cm) =
     (case st (key_of cm) of
        None \<Rightarrow> (Some NotFound, st)
      | Some found \<Rightarrow> (None, st(key_of cm := None)))"

section \<open>The desired ConfigMaps (\<open>getDesiredConfigMaps\<close>)\<close>

record Unpacker =
  Namespace_u :: string
  PodName :: string
  PackageName :: string
  BundleName :: string

record Bundle =
  bundle_Name :: string
  bundle_Namespace :: string
  bundle_UID :: string
  bundle_Image :: string

record GroupVersionKind =
  Group :: string
  Version :: string
  Kind :: string

text \<open>
  \<open>schema.GroupVersionKind.ToAPIVersionAndKind\<close> of apimachinery returns the API version
  first and the kind second; both are empty for the empty GroupVersionKind.
\<close>

definition ToAPIVersionAndKind :: "GroupVersionKind \<Rightarrow> string \<times> string" where
  "ToAPIVersionAndKind gvk =
     (if Group gvk = [] \<and> Version gvk = [] \<and> Kind gvk = [] then ([], [])
      else ((if Group gvk \<noteq> [] then Group gvk @ ''/'' @ Version gvk else Version gvk),
            Kind gvk))"

text \<open>The two results of writing to a \<open>gzip.Writer\<close> and closing it, or the compressed bytes.\<close>

datatype gzip_result = Write_failed string | Close_failed string | Compressed "byte list"

text \<open>
  What the unpacker calls and does not define: the methods of the \<open>client.Object\<close>
  interface, \<open>yaml.Marshal\<close>, \<open>sha256.Sum256\<close>, the gzip writer, and
  \<open>controllerutil.SetControllerReference\<close>, which either fails or gives the owner
  references the ConfigMap has afterwards (it changes nothing else).
\<close>

record 'obj externals =
  GetName :: "'obj \<Rightarrow> string"
  GetNamespace :: "'obj \<Rightarrow> string"
  GetGroupVersionKind :: "'obj \<Rightarrow> GroupVersionKind"
  yaml_Marshal :: "'obj \<Rightarrow> string + byte list"
  sha256_Sum256 :: "byte list \<Rightarrow> byte list"
  gzip :: "byte list \<Rightarrow> gzip_result"
  SetControllerReference :: "Bundle \<Rightarrow> ConfigMap \<Rightarrow> string + OwnerReference list"

text \<open>\<open>fmt.Sprintf("%x", bs)\<close> on a byte array: two lower-case hexadecimal digits a byte.\<close>

definition hex_digit :: "nat \<Rightarrow> char" where
  "hex_digit n = ''0123456789abcdef'' ! (n mod 16)"

definition hex_byte :: "byte \<Rightarrow> string" where
  "hex_byte b = [hex_digit (unat b div 16), hex_digit (unat b mod 16)]"

definition Sprintf_x :: "byte list \<Rightarrow> string" where
  "Sprintf_x bs = concat (map hex_byte bs)"

definition getConfigMapLabels :: "Unpacker \<Rightarrow> (string, string) gomap" where
  "getConfigMapLabels u = Make_map [(''kuberpak.io/bundle-name'', BundleName u)]"

text \<open>
  The errors of \<open>getDesiredConfigMaps\<close>: the error of \<open>yaml.Marshal\<close> as it is,
  \<open>"gzip object data: %v"\<close>, \<open>"close gzip writer: %v"\<close>,
  \<open>"set owner reference on configmap: %v"\<close>, and the run-time panic of the slice
  expression \<open>hash[0:8]\<close> on a string shorter than eight bytes.
\<close>

datatype build_error =
    Marshal_error string
  | Gzip_object_data string
  | Close_gzip_writer string
  | Set_owner_reference string
  | Slice_bounds_out_of_range

text \<open>
  The body of the loop of \<open>getDesiredConfigMaps\<close> for one object. The two results of
  \<open>ToAPIVersionAndKind\<close> are bound to \<open>kind\<close> and \<open>apiVersion\<close> in this order, as
  in the source.
\<close>

definition desired_configmap ::
  "'obj externals \<Rightarrow> Unpacker \<Rightarrow> Bundle \<Rightarrow> string \<Rightarrow> 'obj \<Rightarrow> build_error + ConfigMap"
where
  "desired_configmap ext u bundle resolvedImage obj =
     (case yaml_Marshal ext obj of
        Inl err \<Rightarrow> Inl (Marshal_error err)
      | Inr objData \<Rightarrow>
          (let hash = Sprintf_x (sha256_Sum256 ext objData) in
           case gzip ext objData of
             Write_failed err \<Rightarrow> Inl (Gzip_object_data err)
           | Close_failed err \<Rightarrow> Inl (Close_gzip_writer err)
           | Compressed objCompressed \<Rightarrow>
               (case ToAPIVersionAndKind (GetGroupVersionKind ext obj) of
                  (kind, apiVersion) \<Rightarrow>
                    if length hash < 8 then Inl Slice_bounds_out_of_range
                    else
                      (let cm = \<lparr>
                         Name = ''bundle-object-'' @ BundleName u @ ''-'' @ take 8 hash,
                         Namespace = Namespace_u u,
                         Labels = getConfigMapLabels u,
                         Annotations = Nil_map,
                         OwnerReferences = [],
                         Immutable = Some True,
                         Data = Make_map
                           [(''bundle-image'', resolvedImage),
                            (''object-sha256'', hash),
                            (''object-kind'', kind),
                            (''object-apiversion'', apiVersion),
                            (''object-name'', GetName ext obj),
                            (''object-namespace'', GetNamespace ext obj)],
                         BinaryData = Make_map [(''object'', objCompressed)] \<rparr>
                       in case SetControllerReference ext bundle cm of
                            Inl err \<Rightarrow> Inl (Set_owner_reference err)
                          | Inr refs \<Rightarrow> Inr (cm\<lparr>OwnerReferences := refs\<rparr>)))))"

fun getDesiredConfigMaps_loop ::
  "'obj externals \<Rightarrow> Unpacker \<Rightarrow> Bundle \<Rightarrow> string \<Rightarrow> 'obj list \<Rightarrow> ConfigMap list \<Rightarrow>
     build_error + ConfigMap list"
where
  "getDesiredConfigMaps_loop ext u bundle resolvedImage [] desiredConfigMaps =
     Inr desiredConfigMaps"
| "getDesiredConfigMaps_loop ext u bundle resolvedImage (obj # rest) desiredConfigMaps =
     (case desired_configmap ext u bundle resolvedImage obj of
        Inl err \<Rightarrow> Inl err
      | Inr cm \<Rightarrow>
          getDesiredConfigMaps_loop ext u bundle resolvedImage rest (desiredConfigMaps @ [cm]))"

definition getDesiredConfigMaps ::
  "'obj externals \<Rightarrow> Unpacker \<Rightarrow> Bundle \<Rightarrow> string \<Rightarrow> 'obj list \<Rightarrow>
     build_error + ConfigMap list"
where
  "getDesiredConfigMaps ext u bundle resolvedImage objects =
     getDesiredConfigMaps_loop ext u bundle resolvedImage objects []"

section \<open>The manifest loader (\<open>getObjects\<close>)\<close>

text \<open>
  The manifests are an \<open>fs.FS\<close>: \<open>fs.ReadDir\<close> on its root gives the entries or
  an error, \<open>fs.ReadFile\<close> the bytes of a named entry or an error. Errors are their
  messages.
\<close>

record DirEntry =
  entry_Name :: string
  IsDir :: bool

record manifests =
  ReadDir :: "string + DirEntry list"
  ReadFile :: "string \<Rightarrow> string + byte list"

text \<open>
  The decoder made by \<open>NewYAMLOrJSONDecoder\<close> sees the bytes of one file only. Its
  successive \<open>Decode\<close> calls yield a finite sequence of documents, each either decoded
  or malformed (with the decoder's error), and \<open>io.EOF\<close> after the last one.
\<close>

datatype 'obj decoded = Document 'obj | Malformed string

fun decode_loop :: "'obj decoded list \<Rightarrow> 'obj list \<Rightarrow> string + 'obj list" where
  "decode_loop [] objects = Inr objects"
| "decode_loop (Malformed err # rest) objects = Inl err"
| "decode_loop (Document obj # rest) objects = decode_loop rest (objects @ [obj])"

fun getObjects_loop ::
  "manifests \<Rightarrow> (byte list \<Rightarrow> 'obj decoded list) \<Rightarrow> DirEntry list \<Rightarrow> 'obj list \<Rightarrow>
     string + 'obj list"
where
  "getObjects_loop fs dec [] objects = Inr objects"
| "getObjects_loop fs dec (e # rest) objects =
     (if IsDir e then getObjects_loop fs dec rest objects
      else
        (case ReadFile fs (entry_Name e) of
           Inl err \<Rightarrow> Inl err
         | Inr fileData \<Rightarrow>
             (case decode_loop (dec fileData) objects of
                Inl err \<Rightarrow> Inl err
              | Inr objects' \<Rightarrow> getObjects_loop fs dec rest objects')))"

definition getObjects ::
  "manifests \<Rightarrow> (byte list \<Rightarrow> 'obj decoded list) \<Rightarrow> string + 'obj list"
where
  "getObjects fs dec =
     (case ReadDir fs of
        Inl err \<Rightarrow> Inl (''read manifests: '' @ err)
      | Inr dir_entries \<Rightarrow> getObjects_loop fs dec dir_entries [])"


section \<open>SHA-256\<close>

text \<open>
  \<open>sha256.Sum256\<close> of the Go standard library computes the SHA-256 digest of FIPS 180-4.
  The function is written here on 32-bit words, with the rotations as the two shifts Go's
  \<open>bits.RotateLeft32\<close> is made of, so that the example externals can use the real
  digest.
\<close>

unbundle bit_operations_syntax

definition rotr :: "nat \<Rightarrow> 32 word \<Rightarrow> 32 word" where
  "rotr n x = drop_bit n x OR push_bit (32 - n) x"

definition Ch :: "32 word \<Rightarrow> 32 word \<Rightarrow> 32 word \<Rightarrow> 32 word" where
  "Ch x y z = (x AND y) XOR (NOT x AND z)"

definition Maj :: "32 word \<Rightarrow> 32 word \<Rightarrow> 32 word \<Rightarrow> 32 word" where
  "Maj x y z = (x AND y) XOR (x AND z) XOR (y AND z)"

definition bsig0 :: "32 word \<Rightarrow> 32 word" where
  "bsig0 x = rotr 2 x XOR rotr 13 x XOR rotr 22 x"

definition bsig1 :: "32 word \<Rightarrow> 32 word" where
  "bsig1 x = rotr 6 x XOR rotr 11 x XOR rotr 25 x"

definition ssig0 :: "32 word \<Rightarrow> 32 word" where
  "ssig0 x = rotr 7 x XOR rotr 18 x XOR drop_bit 3 x"

definition ssig1 :: "32 word \<Rightarrow> 32 word" where
  "ssig1 x = rotr 17 x XOR rotr 19 x XOR drop_bit 10 x"

text \<open>
  The sixty-four round constants of FIPS 180-4, section 4.2.2, and the initial hash value
  of section 5.3.3, written in decimal.
\<close>

definition K256 :: "32 word list" where
  "K256 =
    [
     1116352408, 1899447441, 3049323471, 3921009573, 961987163, 1508970993,
     2453635748, 2870763221, 3624381080, 310598401, 607225278, 1426881987,
     1925078388, 2162078206, 2614888103, 3248222580, 3835390401, 4022224774,
     264347078, 604807628, 770255983, 1249150122, 1555081692, 1996064986,
     2554220882, 2821834349, 2952996808, 3210313671, 3336571891, 3584528711,
     113926993, 338241895, 666307205, 773529912, 1294757372, 1396182291,
     1695183700, 1986661051, 2177026350, 2456956037, 2730485921, 2820302411,
     3259730800, 3345764771, 3516065817, 3600352804, 4094571909, 275423344,
     430227734, 506948616, 659060556, 883997877, 958139571, 1322822218,
     1537002063, 1747873779, 1955562222, 2024104815, 2227730452, 2361852424,
     2428436474, 2756734187, 3204031479, 3329325298
    ]"

type_synonym sha_state =
  "32 word \<times> 32 word \<times> 32 word \<times> 32 word \<times> 32 word \<times> 32 word \<times> 32 word \<times> 32 word"

definition H256 :: sha_state where
  "H256 =
     (1779033703, 3144134277, 1013904242, 2773480762,
      1359893119, 2600822924, 528734635, 1541459225)"

text \<open>Big-endian conversions between bytes and words, and the 64-bit length field.\<close>

definition be32 :: "byte \<Rightarrow> byte \<Rightarrow> byte \<Rightarrow> byte \<Rightarrow> 32 word" where
  "be32 a b c d =
     push_bit 24 (ucast a) OR push_bit 16 (ucast b) OR push_bit 8 (ucast c) OR ucast d"

definition bytes_of_word :: "32 word \<Rightarrow> byte list" where
  "bytes_of_word w =
     [ucast (drop_bit 24 w), ucast (drop_bit 16 w), ucast (drop_bit 8 w), ucast w]"

definition bytes_of_length :: "nat \<Rightarrow> byte list" where
  "bytes_of_length n =
     [of_nat (n div 2 ^ 56), of_nat (n div 2 ^ 48), of_nat (n div 2 ^ 40), of_nat (n div 2 ^ 32),
      of_nat (n div 2 ^ 24), of_nat (n div 2 ^ 16), of_nat (n div 2 ^ 8), of_nat n]"

text \<open>
  Padding: the byte \<open>0x80\<close>, zero bytes up to 56 modulo 64, and the length of the message
  in bits.
\<close>

definition pad :: "byte list \<Rightarrow> byte list" where
  "pad m =
     m @ [0x80] @ replicate ((119 - length m mod 64) mod 64) 0 @ bytes_of_length (8 * length m)"

fun words_of :: "byte list \<Rightarrow> 32 word list" where
  "words_of (a # b # c # d # rest) = be32 a b c d # words_of rest"
| "words_of rest = []"

function blocks_of :: "byte list \<Rightarrow> byte list list" where
  "blocks_of bs = (if length bs < 64 then [] else take 64 bs # blocks_of (drop 64 bs))"
  by pat_completeness auto
termination
  by (relation "measure length") auto

text \<open>The message schedule: sixteen words of the block extended to sixty-four.\<close>

definition next_word :: "32 word list \<Rightarrow> 32 word" where
  "next_word ws =
     ssig1 (ws ! (length ws - 2)) + ws ! (length ws - 7) +
     ssig0 (ws ! (length ws - 15)) + ws ! (length ws - 16)"

function schedule :: "32 word list \<Rightarrow> 32 word list" where
  "schedule ws = (if length ws < 64 then schedule (ws @ [next_word ws]) else ws)"
  by pat_completeness auto
termination
  by (relation "measure (\<lambda>ws. 64 - length ws)") auto

fun round :: "sha_state \<Rightarrow> 32 word \<times> 32 word \<Rightarrow> sha_state" where
  "round (a, b, c, d, e, f, g, h) (k, w) =
     (let t1 = h + bsig1 e + Ch e f g + k + w;
          t2 = bsig0 a + Maj a b c
      in (t1 + t2, a, b, c, d + t1, e, f, g))"

fun add_state :: "sha_state \<Rightarrow> sha_state \<Rightarrow> sha_state" where
  "add_state (a, b, c, d, e, f, g, h) (a', b', c', d', e', f', g', h') =
     (a + a', b + b', c + c', d + d', e + e', f + f', g + g', h + h')"

definition compress :: "sha_state \<Rightarrow> byte list \<Rightarrow> sha_state" where
  "compress hs block = add_state hs (foldl round hs (zip K256 (schedule (words_of block))))"

fun state_bytes :: "sha_state \<Rightarrow> byte list" where
  "state_bytes (a, b, c, d, e, f, g, h) = concat (map bytes_of_word [a, b, c, d, e, f, g, h])"

definition sha256 :: "byte list \<Rightarrow> byte list" where
  "sha256 m = state_bytes (foldl compress H256 (blocks_of (pad m)))"


section \<open>Notions used to state the properties\<close>

text \<open>
  The error with which a call ends the run, if it does: a delete ends it on any answer
  that \<open>IgnoreNotFound\<close> keeps, a create on any error.
\<close>

fun call_error :: "call \<Rightarrow> ensure_error option" where
  "call_error (Delete cm, err) = map_option Delete_configmap (IgnoreNotFound err)"
| "call_error (Create cm, err) = map_option Create_configmap err"

fun first_error :: "call list \<Rightarrow> ensure_error option" where
  "first_error [] = None"
| "first_error (c # cs) = (case call_error c of Some e \<Rightarrow> Some e | None \<Rightarrow> first_error cs)"

fun stops_at_error :: "call list \<Rightarrow> bool" where
  "stops_at_error [] = True"
| "stops_at_error (c # cs) =
     (case call_error c of Some e \<Rightarrow> cs = [] | None \<Rightarrow> stops_at_error cs)"

definition run_shape :: "ensure_error option \<Rightarrow> call list \<Rightarrow> bool" where
  "run_shape r tr = (r = first_error tr \<and> stops_at_error tr)"

text \<open>
  The client that answers success wherever \<open>cl\<close> answers not-found to a delete and
  otherwise behaves as \<open>cl\<close>, and the same change applied to a recorded call.
\<close>

definition answering_found :: "'st client \<Rightarrow> 'st client" where
  "answering_found cl st rq =
     (case rq of
        Delete cm \<Rightarrow> (case cl st rq of (err, st') \<Rightarrow> (IgnoreNotFound err, st'))
      | Create cm \<Rightarrow> cl st rq)"

fun found_answer :: "call \<Rightarrow> call" where
  "found_answer (Delete cm, err) = (Delete cm, IgnoreNotFound err)"
| "found_answer (Create cm, err) = (Create cm, err)"

text \<open>
  Equality of content of two ConfigMaps: the same keys with the same values in labels,
  annotations, data and binary data. \<open>wf_configmap\<close> says that the four maps are Go
  maps (no key twice).
\<close>

definition wf_configmap :: "ConfigMap \<Rightarrow> bool" where
  "wf_configmap cm =
     (wf_map (Labels cm) \<and> wf_map (Annotations cm) \<and> wf_map (Data cm) \<and>
      wf_map (BinaryData cm))"

definition content_eq :: "ConfigMap \<Rightarrow> ConfigMap \<Rightarrow> bool" where
  "content_eq a d =
     ((\<forall>k. lookup (Labels a) k = lookup (Labels d) k) \<and>
      (\<forall>k. lookup (Annotations a) k = lookup (Annotations d) k) \<and>
      (\<forall>k. lookup (Data a) k = lookup (Data d) k) \<and>
      (\<forall>k. lookup (BinaryData a) k = lookup (BinaryData d) k))"

text \<open>A call is a delete aimed at key \<open>k\<close>.\<close>

fun is_delete_at :: "NamespacedName \<Rightarrow> call \<Rightarrow> bool" where
  "is_delete_at k (Delete cm, err) = (key_of cm = k)"
| "is_delete_at k (Create cm, err) = False"

text \<open>The invariant of \<open>actualCms\<close>: no key twice, every ConfigMap under its own key.\<close>

definition keyed :: "(NamespacedName \<times> ConfigMap) list \<Rightarrow> bool" where
  "keyed a = (distinct (map fst a) \<and> list_all (\<lambda>(k, cm). k = key_of cm) a)"

text \<open>Every create of \<open>d\<close> in a sequence of calls comes right after a delete of \<open>ecm\<close>.\<close>

definition create_after_delete :: "ConfigMap \<Rightarrow> ConfigMap \<Rightarrow> call list \<Rightarrow> bool" where
  "create_after_delete ecm d tr =
     (\<forall>j < length tr. fst (tr ! j) = Create d \<longrightarrow> 0 < j \<and> fst (tr ! (j - 1)) = Delete ecm)"

text \<open>
  For the builder: an object can be built when \<open>yaml.Marshal\<close> returns its bytes, the
  digest has at least the four bytes whose hexadecimal form the name takes, and the gzip
  writer does not fail; the hexadecimal content hash of an object; and its compressed
  bytes.
\<close>

definition buildable :: "'obj externals \<Rightarrow> 'obj \<Rightarrow> bool" where
  "buildable ext obj =
     (case yaml_Marshal ext obj of
        Inl err \<Rightarrow> False
      | Inr objData \<Rightarrow>
          4 \<le> length (sha256_Sum256 ext objData) \<and>
          (case gzip ext objData of Compressed objCompressed \<Rightarrow> True | _ \<Rightarrow> False))"

definition object_hash :: "'obj externals \<Rightarrow> 'obj \<Rightarrow> string" where
  "object_hash ext obj =
     (case yaml_Marshal ext obj of
        Inl err \<Rightarrow> []
      | Inr objData \<Rightarrow> Sprintf_x (sha256_Sum256 ext objData))"

definition object_payload :: "'obj externals \<Rightarrow> 'obj \<Rightarrow> byte list" where
  "object_payload ext obj =
     (case yaml_Marshal ext obj of
        Inl err \<Rightarrow> []
      | Inr objData \<Rightarrow>
          (case gzip ext objData of Compressed objCompressed \<Rightarrow> objCompressed | _ \<Rightarrow> []))"

text \<open>
  For the loader: the decoded documents of a stream, the entries that are not
  directories, an entry that can be read and holds no malformed document, and the
  documents of an entry.
\<close>

fun is_document :: "'obj decoded \<Rightarrow> bool" where
  "is_document (Document obj) = True"
| "is_document (Malformed err) = False"

fun documents_of :: "'obj decoded list \<Rightarrow> 'obj list" where
  "documents_of [] = []"
| "documents_of (Document obj # rest) = obj # documents_of rest"
| "documents_of (Malformed err # rest) = documents_of rest"

definition loadable :: "manifests \<Rightarrow> (byte list \<Rightarrow> 'obj decoded list) \<Rightarrow> DirEntry \<Rightarrow> bool" where
  "loadable fs dec e =
     (case ReadFile fs (entry_Name e) of
        Inl err \<Rightarrow> False
      | Inr fileData \<Rightarrow> list_all is_document (dec fileData))"

definition entry_documents ::
  "manifests \<Rightarrow> (byte list \<Rightarrow> 'obj decoded list) \<Rightarrow> DirEntry \<Rightarrow> 'obj list" where
  "entry_documents fs dec e =
     (case ReadFile fs (entry_Name e) of
        Inl err \<Rightarrow> []
      | Inr fileData \<Rightarrow> documents_of (dec fileData))"

definition files :: "DirEntry list \<Rightarrow> DirEntry list" where
  "files es = filter (\<lambda>e. \<not> IsDir e) es"

section \<open>Example values\<close>

text \<open>
  A ConfigMap of the bundle \<open>mybundle\<close> with a given name and resolved image, and a
  client whose every request fails.
\<close>

definition example_chunk :: "string \<Rightarrow> string \<Rightarrow> ConfigMap" where
  "example_chunk name img =
     \<lparr> Name = name, Namespace = ''kuberpak-system'',
       Labels = Make_map [(''kuberpak.io/bundle-name'', ''mybundle'')],
       Annotations = Nil_map, OwnerReferences = [], Immutable = Some True,
       Data = Make_map [(''bundle-image'', img)],
       BinaryData = Make_map [(''object'', [31, 139])] \<rparr>"

text \<open>
  The chunks of a Deployment and of a Service of that bundle, the Service's chunk after
  the bundle's image was resolved to another digest (same object, so the same name), and
  the store that holds a given list of ConfigMaps.
\<close>

definition deployment_chunk :: ConfigMap where
  "deployment_chunk =
     example_chunk ''bundle-object-mybundle-0a1b2c3d'' ''registry/bundle@sha256:1111''"

definition service_chunk :: ConfigMap where
  "service_chunk =
     example_chunk ''bundle-object-mybundle-9f8e7d6c'' ''registry/bundle@sha256:1111''"

definition service_chunk_new :: ConfigMap where
  "service_chunk_new =
     example_chunk ''bundle-object-mybundle-9f8e7d6c'' ''registry/bundle@sha256:2222''"

definition stored :: "ConfigMap list \<Rightarrow> cluster" where
  "stored cms = map_of (map (\<lambda>cm. (key_of cm, cm)) cms)"

definition unreachable :: "unit client" where
  "unreachable st rq = (Some (OtherError ''connection refused''), st)"

text \<open>
  Manifest objects that carry their own \<open>yaml.Marshal\<close> output, and externals for
  them: the real SHA-256, a stand-in for the gzip writer that puts the two bytes of the
  gzip magic number before the input, and an owner reference to the bundle. The object
  \<open>config_object name\<close> is a ConfigMap manifest with that name; its encoding is the
  YAML text of its fields under the key \<open>object\<close>, the only field of an
  \<open>Unstructured\<close>.
\<close>

record manifest_object =
  object_gvk :: GroupVersionKind
  object_name :: string
  object_namespace :: string
  object_yaml :: "byte list"

definition bytes_of_string :: "string \<Rightarrow> byte list" where
  "bytes_of_string s = map (\<lambda>c. of_nat (of_char c)) s"

definition example_externals :: "manifest_object externals" where
  "example_externals =
     \<lparr> GetName = object_name,
       GetNamespace = object_namespace,
       GetGroupVersionKind = object_gvk,
       yaml_Marshal = (\<lambda>obj. Inr (object_yaml obj)),
       sha256_Sum256 = sha256,
       gzip = (\<lambda>objData. Compressed (0x1f # 0x8b # objData)),
       SetControllerReference = (\<lambda>bundle cm.
         Inr [\<lparr> ref_APIVersion = ''olm.operatorframework.io/v1alpha1'', ref_Kind = ''Bundle'',
                ref_Name = bundle_Name bundle, ref_UID = bundle_UID bundle,
                ref_Controller = True, ref_BlockOwnerDeletion = True \<rparr>]) \<rparr>"

definition config_object :: "string \<Rightarrow> manifest_object" where
  "config_object name =
     \<lparr> object_gvk = \<lparr> Group = [], Version = ''v1'', Kind = ''ConfigMap'' \<rparr>,
       object_name = name,
       object_namespace = [],
       object_yaml = bytes_of_string
         (''object:\<newline>  apiVersion: v1\<newline>  kind: ConfigMap\<newline>  metadata:\<newline>    name: '' @ name @ ''\<newline>'') \<rparr>"

definition example_unpacker :: Unpacker where
  "example_unpacker =
     \<lparr> Namespace_u = ''kuberpak-system'', PodName = ''unpack-mybundle'', PackageName = [],
       BundleName = ''mybundle'' \<rparr>"

definition example_bundle :: Bundle where
  "example_bundle =
     \<lparr> bundle_Name = ''mybundle'', bundle_Namespace = ''kuberpak-system'',
       bundle_UID = ''7f3c'', bundle_Image = ''registry/bundle:v1'' \<rparr>"


text \<open>
  A directory with a subdirectory and two manifest files, a decoder that finds two
  documents in the first file and one in the second, and a decoder that finds a malformed
  document in the second file.
\<close>

definition example_manifests :: manifests where
  "example_manifests =
     \<lparr> ReadDir = Inr [\<lparr> entry_Name = ''crds'', IsDir = True \<rparr>,
                      \<lparr> entry_Name = ''deployment.yaml'', IsDir = False \<rparr>,
                      \<lparr> entry_Name = ''service.yaml'', IsDir = False \<rparr>],
       ReadFile = (\<lambda>name. if name = ''deployment.yaml'' then Inr [1]
                          else if name = ''service.yaml'' then Inr [2]
                          else Inl (''open '' @ name @ '': file does not exist'')) \<rparr>"

definition example_decoder :: "byte list \<Rightarrow> string decoded list" where
  "example_decoder fileData =
     (if fileData = [1] then [Document ''Deployment'', Document ''ServiceAccount'']
      else [Document ''Service''])"

definition broken_decoder :: "byte list \<Rightarrow> string decoded list" where
  "broken_decoder fileData =
     (if fileData = [1] then [Document ''Deployment'', Document ''ServiceAccount'']
      else [Document ''Service'',
            Malformed ''error converting YAML to JSON: yaml: line 3: could not find expected key'',
            Document ''Role''])"


section \<open>Properties of the map equality\<close>

lemma length_eq_card_keys: "distinct (map fst xs) \<Longrightarrow> length xs = card (dom (map_of xs))"
  by (metis distinct_card dom_map_of_conv_image_fst length_map list.set_map)

lemma same_entries_iff:
  assumes "distinct (map fst xs)" "distinct (map fst ys)"
  shows "(length xs = length ys \<and> (\<forall>(k, v) \<in> set xs. map_of ys k = Some v)) \<longleftrightarrow> map_of xs = map_of ys"
proof
  assume L: "length xs = length ys \<and> (\<forall>(k, v) \<in> set xs. map_of ys k = Some v)"
  have sub: "dom (map_of xs) \<subseteq> dom (map_of ys)"
  proof
    fix k assume "k \<in> dom (map_of xs)"
    then obtain v where "map_of xs k = Some v" by auto
    then have "(k, v) \<in> set xs" by (rule map_of_SomeD)
    with L have "map_of ys k = Some v" by auto
    then show "k \<in> dom (map_of ys)" by auto
  qed
  have "card (dom (map_of xs)) = card (dom (map_of ys))"
    using L assms by (simp add: length_eq_card_keys)
  then have doms: "dom (map_of xs) = dom (map_of ys)"
    using sub by (simp add: card_subset_eq finite_dom_map_of)
  show "map_of xs = map_of ys"
  proof
    fix k
    show "map_of xs k = map_of ys k"
    proof (cases "map_of xs k")
      case None
      then have "k \<notin> dom (map_of xs)" by (simp add: domIff)
      then have "k \<notin> dom (map_of ys)" using doms by simp
      then have "map_of ys k = None" by (simp add: domIff)
      then show ?thesis using None by simp
    next
      case (Some v)
      then have "(k, v) \<in> set xs" by (rule map_of_SomeD)
      with L Some show ?thesis by auto
    qed
  qed
next
  assume R: "map_of xs = map_of ys"
  have "length xs = length ys"
    using assms R by (simp add: length_eq_card_keys)
  moreover have "\<forall>(k, v) \<in> set xs. map_of ys k = Some v"
    using assms(1) by (auto simp flip: R)
  ultimately show "length xs = length ys \<and> (\<forall>(k, v) \<in> set xs. map_of ys k = Some v)" by simp
qed

lemma stringMapsEqual_range_iff:
  "stringMapsEqual_range xs b = (\<forall>(k, v) \<in> set xs. lookup b k = Some v)"
  by (induction xs b rule: stringMapsEqual_range.induct) (auto split: option.splits)

lemma bytesMapsEqual_range_iff:
  "bytesMapsEqual_range xs b = (\<forall>(k, v) \<in> set xs. lookup b k = Some v)"
  by (induction xs b rule: bytesMapsEqual_range.induct) (auto split: option.splits)

lemma stringMapsEqual_iff:
  assumes "wf_map a" "wf_map b"
  shows "stringMapsEqual a b \<longleftrightarrow> (\<forall>k. lookup a k = lookup b k)"
proof -
  have "(length (entries a) = length (entries b) \<and>
      (\<forall>(k, v) \<in> set (entries a). map_of (entries b) k = Some v)) \<longleftrightarrow>
      map_of (entries a) = map_of (entries b)"
    using assms unfolding wf_map_def by (rule same_entries_iff)
  moreover have "stringMapsEqual a b \<longleftrightarrow>
      (length (entries a) = length (entries b) \<and>
       (\<forall>(k, v) \<in> set (entries a). map_of (entries b) k = Some v))"
    by (simp add: stringMapsEqual_def stringMapsEqual_range_iff len_def lookup_def)
  ultimately have "stringMapsEqual a b \<longleftrightarrow> map_of (entries a) = map_of (entries b)"
    by simp
  then show ?thesis
    by (simp add: lookup_def fun_eq_iff)
qed

lemma bytesMapsEqual_iff:
  assumes "wf_map a" "wf_map b"
  shows "bytesMapsEqual a b \<longleftrightarrow> (\<forall>k. lookup a k = lookup b k)"
proof -
  have "(length (entries a) = length (entries b) \<and>
      (\<forall>(k, v) \<in> set (entries a). map_of (entries b) k = Some v)) \<longleftrightarrow>
      map_of (entries a) = map_of (entries b)"
    using assms unfolding wf_map_def by (rule same_entries_iff)
  moreover have "bytesMapsEqual a b \<longleftrightarrow>
      (length (entries a) = length (entries b) \<and>
       (\<forall>(k, v) \<in> set (entries a). map_of (entries b) k = Some v))"
    by (simp add: bytesMapsEqual_def bytesMapsEqual_range_iff len_def lookup_def)
  ultimately have "bytesMapsEqual a b \<longleftrightarrow> map_of (entries a) = map_of (entries b)"
    by simp
  then show ?thesis
    by (simp add: lookup_def fun_eq_iff)
qed

lemma lookup_reordered:
  assumes "wf_map a" "mset (entries a') = mset (entries a)"
  shows "wf_map a' \<and> (\<forall>k. lookup a' k = lookup a k)"
proof -
  have d: "distinct (map fst (entries a'))"
    using assms by (metis wf_map_def mset_map mset_eq_imp_distinct_iff)
  have "set (entries a') = set (entries a)" using assms(2) by (rule mset_eq_setD)
  then have "map_of (entries a') = map_of (entries a)"
    using d assms(1) unfolding wf_map_def by (intro map_of_inject_set[THEN iffD2]) auto
  then show ?thesis using d by (simp add: wf_map_def lookup_def)
qed

text \<open>
  C10. For maps without repeated keys, \<open>stringMapsEqual a b\<close> holds exactly when
  \<open>a\<close> and \<open>b\<close> have the same keys with equal values, and so does
  \<open>bytesMapsEqual\<close> with values compared byte by byte. A nil map and an empty map are
  equal. The result does not depend on the order in which either map is ranged over, and
  both functions are reflexive, symmetric and transitive.
\<close>

theorem maps_equal_semantics:
  assumes "wf_map a" "wf_map b" "wf_map c" "wf_map d"
  shows "(stringMapsEqual a b \<longleftrightarrow> (\<forall>k. lookup a k = lookup b k)) \<and>
         (bytesMapsEqual c d \<longleftrightarrow> (\<forall>k. lookup c k = lookup d k)) \<and>
         stringMapsEqual Nil_map (Make_map []) \<and> stringMapsEqual (Make_map []) Nil_map \<and>
         bytesMapsEqual Nil_map (Make_map []) \<and> bytesMapsEqual (Make_map []) Nil_map \<and>
         (mset (entries a') = mset (entries a) \<and> mset (entries b') = mset (entries b) \<longrightarrow>
            stringMapsEqual a' b' = stringMapsEqual a b) \<and>
         (mset (entries c') = mset (entries c) \<and> mset (entries d') = mset (entries d) \<longrightarrow>
            bytesMapsEqual c' d' = bytesMapsEqual c d) \<and>
         stringMapsEqual a a \<and> stringMapsEqual a b = stringMapsEqual b a \<and>
         (wf_map e \<and> stringMapsEqual a b \<and> stringMapsEqual b e \<longrightarrow> stringMapsEqual a e) \<and>
         bytesMapsEqual c c \<and> bytesMapsEqual c d = bytesMapsEqual d c \<and>
         (wf_map f \<and> bytesMapsEqual c d \<and> bytesMapsEqual d f \<longrightarrow> bytesMapsEqual c f)"
proof -
  have nil: "stringMapsEqual Nil_map (Make_map [])" "stringMapsEqual (Make_map []) Nil_map"
    "bytesMapsEqual Nil_map (Make_map [])" "bytesMapsEqual (Make_map []) Nil_map"
    by (simp_all add: stringMapsEqual_def bytesMapsEqual_def len_def)
  have ord_s: "stringMapsEqual a' b' = stringMapsEqual a b"
    if "mset (entries a') = mset (entries a)" "mset (entries b') = mset (entries b)"
  proof -
    from lookup_reordered[OF assms(1) that(1)] lookup_reordered[OF assms(2) that(2)]
    show ?thesis using assms(1,2) by (simp add: stringMapsEqual_iff)
  qed
  have ord_b: "bytesMapsEqual c' d' = bytesMapsEqual c d"
    if "mset (entries c') = mset (entries c)" "mset (entries d') = mset (entries d)"
  proof -
    from lookup_reordered[OF assms(3) that(1)] lookup_reordered[OF assms(4) that(2)]
    show ?thesis using assms(3,4) by (simp add: bytesMapsEqual_iff)
  qed
  have sym_s: "stringMapsEqual a a" "stringMapsEqual a b = stringMapsEqual b a"
    using assms(1,2) by (auto simp add: stringMapsEqual_iff)
  have sym_b: "bytesMapsEqual c c" "bytesMapsEqual c d = bytesMapsEqual d c"
    using assms(3,4) by (auto simp add: bytesMapsEqual_iff)
  have trans_s: "stringMapsEqual a e"
    if "wf_map e" "stringMapsEqual a b" "stringMapsEqual b e"
    using that assms(1,2) by (simp add: stringMapsEqual_iff)
  have trans_b: "bytesMapsEqual c f"
    if "wf_map f" "bytesMapsEqual c d" "bytesMapsEqual d f"
    using that assms(3,4) by (simp add: bytesMapsEqual_iff)
  have sem: "stringMapsEqual a b \<longleftrightarrow> (\<forall>k. lookup a k = lookup b k)"
    "bytesMapsEqual c d \<longleftrightarrow> (\<forall>k. lookup c k = lookup d k)"
    using assms by (simp_all add: stringMapsEqual_iff bytesMapsEqual_iff)
  show ?thesis
    using sem nil ord_s ord_b sym_s sym_b trans_s trans_b by blast
qed

text \<open>The theorem at two maps that differ in order only, and two that differ in a byte.\<close>

theorem maps_equal_semantics_witness:
  "wf_map (Make_map [(''app'', ''x''), (''tier'', ''y'')]) \<and>
   wf_map (Make_map [(''tier'', ''y''), (''app'', ''x'')]) \<and>
   wf_map (Make_map [(''object'', [1, 2 :: byte])]) \<and>
   wf_map (Make_map [(''object'', [1, 3 :: byte])]) \<and>
   stringMapsEqual (Make_map [(''app'', ''x''), (''tier'', ''y'')])
                   (Make_map [(''tier'', ''y''), (''app'', ''x'')]) \<and>
   \<not> bytesMapsEqual (Make_map [(''object'', [1, 2])]) (Make_map [(''object'', [1, 3])])"
  using maps_equal_semantics
    [where a = "Make_map [(''app'', ''x''), (''tier'', ''y'')]"
       and b = "Make_map [(''tier'', ''y''), (''app'', ''x'')]"
       and c = "Make_map [(''object'', [1, 2])]"
       and d = "Make_map [(''object'', [1, 3])]"
       and a' = "Make_map [(''tier'', ''y''), (''app'', ''x'')]"
       and b' = "Make_map [(''app'', ''x''), (''tier'', ''y'')]"
       and c' = "Make_map [(''object'', [1, 2])]"
       and d' = "Make_map [(''object'', [1, 3])]"
       and e = "Make_map [(''app'', ''x''), (''tier'', ''y'')]"
       and f = "Make_map [(''object'', [1, 3])]"]
  by (simp add: wf_map_def lookup_def)

section \<open>SHA-256: evaluation\<close>

text \<open>
  Equations that keep every intermediate word below \<open>2^32\<close> while the simplifier
  computes a digest, and the digest of the FIPS 180-4 test message \<open>abc\<close>.
\<close>

lemma round_eval:
  "round (a, b, c, d, e, f, g, h) (k, w) =
     (let t1 = word_of_nat (unat (h + bsig1 e + Ch e f g + k + w));
          t2 = word_of_nat (unat (bsig0 a + Maj a b c))
      in (word_of_nat (unat (t1 + t2)), a, b, c, word_of_nat (unat (d + t1)), e, f, g))"
  by (simp add: Let_def)

lemma add_state_eval:
  "add_state (a, b, c, d, e, f, g, h) (a', b', c', d', e', f', g', h') =
     (word_of_nat (unat (a + a')), word_of_nat (unat (b + b')), word_of_nat (unat (c + c')),
      word_of_nat (unat (d + d')), word_of_nat (unat (e + e')), word_of_nat (unat (f + f')),
      word_of_nat (unat (g + g')), word_of_nat (unat (h + h')))"
  by simp

lemma next_word_eval:
  "next_word ws =
     word_of_nat (unat (ssig1 (ws ! (length ws - 2)) + ws ! (length ws - 7) +
     ssig0 (ws ! (length ws - 15)) + ws ! (length ws - 16)))"
  by (simp add: next_word_def)

lemma replicate_numeral_unfold: "replicate (numeral k) x = x # replicate (pred_numeral k) x"
  by (simp add: numeral_eq_Suc)

lemmas sha_eval =
  sha256_def pad_def bytes_of_length_def compress_def K256_def H256_def be32_def
  bytes_of_word_def rotr_def Ch_def Maj_def bsig0_def bsig1_def ssig0_def ssig1_def
  Let_def next_word_eval round_eval add_state_eval replicate_numeral_unfold

lemma sha256_abc:
  "sha256 [0x61, 0x62, 0x63] = [0xba, 0x78, 0x16, 0xbf, 0x8f, 0x01, 0xcf, 0xea, 0x41, 0x41, 0x40, 0xde, 0x5d, 0xae, 0x22, 0x23, 0xb0, 0x03, 0x61, 0xa3, 0x96, 0x17, 0x7a, 0x9c, 0xb4, 0x10, 0xff, 0x61, 0xf2, 0x00, 0x15, 0xad]"
  by (simp add: sha_eval del: round.simps add_state.simps)


section \<open>Properties of the reconciler\<close>

subsection \<open>The shape of a run\<close>

lemma IgnoreNotFound_idem [simp]: "IgnoreNotFound (IgnoreNotFound err) = IgnoreNotFound err"
  by (simp add: IgnoreNotFound_def split: option.splits client_error.splits)

lemma delete_configmap_eq:
  "delete_configmap cl ecm st =
     (call_error (Delete ecm, fst (cl st (Delete ecm))), snd (cl st (Delete ecm)),
      [(Delete ecm, fst (cl st (Delete ecm)))])"
  by (simp add: delete_configmap_def split: prod.splits option.splits)

lemma create_configmap_eq:
  "create_configmap cl cm st =
     (call_error (Create cm, fst (cl st (Create cm))), snd (cl st (Create cm)),
      [(Create cm, fst (cl st (Create cm)))])"
  by (simp add: create_configmap_def split: prod.splits option.splits)

lemma run_shape_Nil [simp]: "run_shape r [] = (r = None)"
  by (simp add: run_shape_def)

lemma run_shape_single [simp]: "run_shape (call_error c) [c]"
  by (simp add: run_shape_def split: option.splits)

lemma first_error_append: "first_error tr1 = None \<Longrightarrow> first_error (tr1 @ tr2) = first_error tr2"
  by (induction tr1) (auto split: option.splits)

lemma stops_at_error_append:
  "first_error tr1 = None \<Longrightarrow> stops_at_error (tr1 @ tr2) = stops_at_error tr2"
  by (induction tr1) (auto split: option.splits)

lemma run_shape_append:
  "run_shape None tr1 \<Longrightarrow> run_shape r tr2 \<Longrightarrow> run_shape r (tr1 @ tr2)"
  by (simp add: run_shape_def first_error_append stops_at_error_append)

lemma delete_configmap_shape:
  "delete_configmap cl ecm st = (r, st', tr) \<Longrightarrow> run_shape r tr"
  by (auto simp add: delete_configmap_eq run_shape_def split: option.splits)

lemma create_configmap_shape:
  "create_configmap cl cm st = (r, st', tr) \<Longrightarrow> run_shape r tr"
  by (auto simp add: create_configmap_eq run_shape_def split: option.splits)

lemma ensure_one_shape:
  assumes "ensure_one cl cm actualCms st = (r, actualCms', st', tr)"
  shows "run_shape r tr"
  using assms
  by (auto simp add: ensure_one_def Let_def split: option.splits if_splits prod.splits
      dest!: delete_configmap_shape create_configmap_shape intro: run_shape_append)

lemma ensure_desired_shape:
  "ensure_desired cl desired actualCms st = (r, actualCms', st', tr) \<Longrightarrow> run_shape r tr"
proof (induction desired arbitrary: actualCms st r actualCms' st' tr)
  case Nil
  then show ?case by simp
next
  case (Cons cm rest)
  obtain r1 a1 st1 tr1 where one: "ensure_one cl cm actualCms st = (r1, a1, st1, tr1)"
    by (cases "ensure_one cl cm actualCms st") auto
  have s1: "run_shape r1 tr1" using one by (rule ensure_one_shape)
  show ?case
  proof (cases r1)
    case (Some e)
    with Cons.prems one s1 show ?thesis by auto
  next
    case None
    obtain r2 a2 st2 tr2 where two: "ensure_desired cl rest a1 st1 = (r2, a2, st2, tr2)"
      by (cases "ensure_desired cl rest a1 st1") auto
    have "run_shape r2 tr2" using two by (rule Cons.IH)
    with Cons.prems one None two s1 show ?thesis by (auto intro: run_shape_append)
  qed
qed

lemma delete_remaining_shape:
  "delete_remaining cl cms st = (r, st', tr) \<Longrightarrow> run_shape r tr"
proof (induction cms arbitrary: st r st' tr)
  case Nil
  then show ?case by simp
next
  case (Cons ecm rest)
  obtain r1 st1 tr1 where one: "delete_configmap cl ecm st = (r1, st1, tr1)"
    by (cases "delete_configmap cl ecm st") auto
  have s1: "run_shape r1 tr1" using one by (rule delete_configmap_shape)
  show ?case
  proof (cases r1)
    case (Some e)
    with Cons.prems one s1 show ?thesis by auto
  next
    case None
    obtain r2 st2 tr2 where two: "delete_remaining cl rest st1 = (r2, st2, tr2)"
      by (cases "delete_remaining cl rest st1") auto
    have "run_shape r2 tr2" using two by (rule Cons.IH)
    with Cons.prems one None two s1 show ?thesis by (auto intro: run_shape_append)
  qed
qed

lemma ensureDesiredConfigMaps_shape:
  assumes "ensureDesiredConfigMaps cl seed actual desired st = (r, st', tr)"
  shows "run_shape r tr"
proof -
  obtain r1 a1 st1 tr1 where one:
    "ensure_desired cl desired (index_actual actual []) st = (r1, a1, st1, tr1)"
    by (cases "ensure_desired cl desired (index_actual actual []) st") auto
  have s1: "run_shape r1 tr1" using one by (rule ensure_desired_shape)
  show ?thesis
  proof (cases r1)
    case (Some e)
    with assms one s1 show ?thesis by (auto simp add: ensureDesiredConfigMaps_def)
  next
    case None
    obtain r2 st2 tr2 where two:
      "delete_remaining cl (map snd (range_order seed a1)) st1 = (r2, st2, tr2)"
      by (cases "delete_remaining cl (map snd (range_order seed a1)) st1") auto
    have "run_shape r2 tr2" using two by (rule delete_remaining_shape)
    with assms one None two s1 show ?thesis
      by (auto simp add: ensureDesiredConfigMaps_def intro: run_shape_append)
  qed
qed

lemma stops_at_error_nth:
  "stops_at_error tr \<Longrightarrow> i < length tr \<Longrightarrow> call_error (tr ! i) = Some e \<Longrightarrow>
     Suc i = length tr \<and> first_error tr = Some e"
proof (induction tr arbitrary: i)
  case Nil
  then show ?case by simp
next
  case (Cons c cs)
  show ?case
  proof (cases i)
    case 0
    with Cons.prems show ?thesis by auto
  next
    case (Suc j)
    with Cons.prems have "call_error c = None"
      by (cases "call_error c") auto
    with Cons Suc show ?thesis by auto
  qed
qed

lemma stops_at_error_nth_ok:
  "i < length tr \<Longrightarrow> call_error (tr ! i) = None \<Longrightarrow> Suc i = length tr \<Longrightarrow>
     stops_at_error tr \<Longrightarrow> first_error tr = None"
proof (induction tr arbitrary: i)
  case Nil
  then show ?case by simp
next
  case (Cons c cs)
  show ?case
  proof (cases i)
    case 0
    with Cons.prems show ?thesis by auto
  next
    case (Suc j)
    with Cons.prems have "call_error c = None"
      by (cases "call_error c") auto
    with Cons Suc show ?thesis by auto
  qed
qed


lemma delete_configmap_found:
  "delete_configmap (answering_found cl) ecm st =
     (case delete_configmap cl ecm st of (r, st', tr) \<Rightarrow> (r, st', map found_answer tr))"
  by (simp add: delete_configmap_def answering_found_def split: prod.splits option.splits)

lemma create_configmap_found:
  "create_configmap (answering_found cl) cm st =
     (case create_configmap cl cm st of (r, st', tr) \<Rightarrow> (r, st', map found_answer tr))"
  by (simp add: create_configmap_def answering_found_def split: prod.splits option.splits)

lemma ensure_one_found:
  "ensure_one (answering_found cl) cm actualCms st =
     (case ensure_one cl cm actualCms st of
        (r, actualCms', st', tr) \<Rightarrow> (r, actualCms', st', map found_answer tr))"
  by (simp add: ensure_one_def delete_configmap_found create_configmap_found Let_def
      split: prod.splits option.splits)

lemma ensure_desired_found:
  "ensure_desired (answering_found cl) desired actualCms st =
     (case ensure_desired cl desired actualCms st of
        (r, actualCms', st', tr) \<Rightarrow> (r, actualCms', st', map found_answer tr))"
  by (induction desired arbitrary: actualCms st)
     (simp_all add: ensure_one_found split: prod.splits option.splits)

lemma delete_remaining_found:
  "delete_remaining (answering_found cl) cms st =
     (case delete_remaining cl cms st of (r, st', tr) \<Rightarrow> (r, st', map found_answer tr))"
  by (induction cms arbitrary: st)
     (simp_all add: delete_configmap_found split: prod.splits option.splits)

lemma ensureDesiredConfigMaps_found:
  "ensureDesiredConfigMaps (answering_found cl) seed actual desired st =
     (case ensureDesiredConfigMaps cl seed actual desired st of
        (r, st', tr) \<Rightarrow> (r, st', map found_answer tr))"
  by (simp add: ensureDesiredConfigMaps_def ensure_desired_found delete_remaining_found
      split: prod.splits option.splits)

subsection \<open>Equality of content\<close>

lemma same_configmap_iff:
  "wf_configmap a \<Longrightarrow> wf_configmap d \<Longrightarrow> same_configmap a d = content_eq a d"
  by (simp add: wf_configmap_def same_configmap_def content_eq_def stringMapsEqual_iff
      bytesMapsEqual_iff)

subsection \<open>The index of the actual ConfigMaps\<close>

lemma list_all_update:
  "P (k, v) \<Longrightarrow> list_all P a \<Longrightarrow> list_all P (AList.update k v a)"
  by (induction a) auto

lemma list_all_delete: "list_all P a \<Longrightarrow> list_all P (AList.delete k a)"
  by (induction a) auto

lemma keyed_update: "keyed a \<Longrightarrow> keyed (AList.update (key_of cm) cm a)"
  by (simp add: keyed_def distinct_update list_all_update)

lemma keyed_delete: "keyed a \<Longrightarrow> keyed (AList.delete k a)"
  by (simp add: keyed_def distinct_delete list_all_delete)

lemma keyed_lookup: "keyed a \<Longrightarrow> map_of a k = Some cm \<Longrightarrow> key_of cm = k"
  by (auto simp add: keyed_def list_all_iff dest!: map_of_SomeD)

lemma keyed_index_actual: "keyed acc \<Longrightarrow> keyed (index_actual actual acc)"
  by (induction actual arbitrary: acc) (simp_all add: keyed_update key_of_def [symmetric])

lemma keys_index_actual:
  "fst ` set (index_actual actual acc) = key_of ` set actual \<union> fst ` set acc"
  by (induction actual arbitrary: acc) (auto simp add: dom_update key_of_def)

lemma keys_delete: "fst ` set (AList.delete k a) = fst ` set a - {k}"
  by (induction a) auto

subsection \<open>What one iteration does to the index\<close>

lemma ensure_one_index:
  assumes "ensure_one cl cm a st = (r, a', st', tr)"
  shows "a' = a \<or> a' = AList.delete (key_of cm) a"
  using assms
  by (auto simp add: ensure_one_def key_of_def Let_def split: option.splits if_splits prod.splits)

lemma ensure_one_keyed:
  "ensure_one cl cm a st = (r, a', st', tr) \<Longrightarrow> keyed a \<Longrightarrow> keyed a'"
  by (auto dest!: ensure_one_index simp add: keyed_delete)

lemma ensure_one_lookup_other:
  "ensure_one cl cm a st = (r, a', st', tr) \<Longrightarrow> k \<noteq> key_of cm \<Longrightarrow> map_of a' k = map_of a k"
  by (auto dest!: ensure_one_index)

lemma ensure_desired_keyed:
  "ensure_desired cl desired a st = (r, a', st', tr) \<Longrightarrow> keyed a \<Longrightarrow> keyed a'"
proof (induction desired arbitrary: a st r a' st' tr)
  case Nil
  then show ?case by simp
next
  case (Cons cm rest)
  obtain r1 a1 st1 tr1 where one: "ensure_one cl cm a st = (r1, a1, st1, tr1)"
    by (cases "ensure_one cl cm a st") auto
  have k1: "keyed a1" using one Cons.prems(2) by (rule ensure_one_keyed)
  show ?case
  proof (cases r1)
    case (Some e)
    with Cons.prems one k1 show ?thesis by auto
  next
    case None
    obtain r2 a2 st2 tr2 where two: "ensure_desired cl rest a1 st1 = (r2, a2, st2, tr2)"
      by (cases "ensure_desired cl rest a1 st1") auto
    have "keyed a2" using two k1 by (rule Cons.IH)
    with Cons.prems one None two show ?thesis by auto
  qed
qed

lemma ensure_desired_lookup_other:
  "ensure_desired cl desired a st = (r, a', st', tr) \<Longrightarrow> k \<notin> key_of ` set desired \<Longrightarrow>
     map_of a' k = map_of a k"
proof (induction desired arbitrary: a st r a' st' tr)
  case Nil
  then show ?case by simp
next
  case (Cons cm rest)
  obtain r1 a1 st1 tr1 where one: "ensure_one cl cm a st = (r1, a1, st1, tr1)"
    by (cases "ensure_one cl cm a st") auto
  have l1: "map_of a1 k = map_of a k"
    using one Cons.prems(2) by (auto intro: ensure_one_lookup_other)
  show ?case
  proof (cases r1)
    case (Some e)
    with Cons.prems one l1 show ?thesis by auto
  next
    case None
    obtain r2 a2 st2 tr2 where two: "ensure_desired cl rest a1 st1 = (r2, a2, st2, tr2)"
      by (cases "ensure_desired cl rest a1 st1") auto
    have "map_of a2 k = map_of a1 k" using two Cons.prems(2) by (auto intro: Cons.IH)
    with Cons.prems one None two l1 show ?thesis by auto
  qed
qed

subsection \<open>Idempotence\<close>

lemma ensure_one_same:
  "map_of a (key_of cm) = Some ecm \<Longrightarrow> same_configmap ecm cm \<Longrightarrow>
     ensure_one cl cm a st = (None, AList.delete (key_of cm) a, st, [])"
  by (simp add: ensure_one_def key_of_def)

lemma ensure_desired_same:
  assumes "distinct (map key_of desired)"
    and "\<forall>d \<in> set desired. \<exists>ecm. map_of a (key_of d) = Some ecm \<and> same_configmap ecm d"
  shows "\<exists>a'. ensure_desired cl desired a st = (None, a', st, []) \<and>
           fst ` set a' = fst ` set a - key_of ` set desired"
  using assms
proof (induction desired arbitrary: a)
  case Nil
  then show ?case by simp
next
  case (Cons cm rest)
  from Cons.prems(2) obtain ecm where
    e: "map_of a (key_of cm) = Some ecm" "same_configmap ecm cm" by auto
  let ?a1 = "AList.delete (key_of cm) a"
  have one: "ensure_one cl cm a st = (None, ?a1, st, [])"
    using e by (rule ensure_one_same)
  have "\<forall>d \<in> set rest. \<exists>ecm. map_of ?a1 (key_of d) = Some ecm \<and> same_configmap ecm d"
  proof
    fix d assume d: "d \<in> set rest"
    moreover have "key_of cm \<notin> key_of ` set rest" using Cons.prems(1) by simp
    ultimately have "key_of d \<noteq> key_of cm" by (metis imageI)
    then have "map_of ?a1 (key_of d) = map_of a (key_of d)" by simp
    with Cons.prems(2) d show "\<exists>ecm. map_of ?a1 (key_of d) = Some ecm \<and> same_configmap ecm d"
      by auto
  qed
  with Cons.IH[of ?a1] Cons.prems(1) obtain a' where
    two: "ensure_desired cl rest ?a1 st = (None, a', st, [])"
      "fst ` set a' = fst ` set ?a1 - key_of ` set rest"
    by auto
  have "fst ` set a' = fst ` set a - key_of ` set (cm # rest)"
    using two(2) by (auto simp add: keys_delete)
  with one two(1) show ?case by simp
qed

lemma range_order_Nil [simp]: "range_order seed [] = []"
  by (cases seed) simp_all

lemma range_order_single [simp]: "range_order seed [x] = [x]"
  by (cases seed) simp_all

subsection \<open>Garbage collection\<close>

lemma mset_range_order: "mset (range_order seed xs) = mset xs"
proof (induction seed arbitrary: xs)
  case Nil
  then show ?case by simp
next
  case (Cons n ns)
  show ?case
  proof (cases "xs = []")
    case True
    then show ?thesis by simp
  next
    case False
    let ?i = "n mod length xs"
    have i: "?i < length xs" using False by simp
    have "mset xs = mset (take ?i xs @ xs ! ?i # drop (Suc ?i) xs)"
      using id_take_nth_drop[OF i] by simp
    then show ?thesis using False Cons.IH by (simp add: Let_def)
  qed
qed

lemma delete_remaining_requests:
  "delete_remaining cl cms st = (r, st', tr) \<Longrightarrow>
     prefix (map fst tr) (map Delete cms) \<and> (r = None \<longrightarrow> map fst tr = map Delete cms)"
proof (induction cms arbitrary: st r st' tr)
  case Nil
  then show ?case by simp
next
  case (Cons ecm rest)
  let ?err = "fst (cl st (Delete ecm))" and ?st1 = "snd (cl st (Delete ecm))"
  show ?case
  proof (cases "call_error (Delete ecm, ?err)")
    case (Some e)
    with Cons.prems show ?thesis by (auto simp add: delete_configmap_eq)
  next
    case None
    obtain r2 st2 tr2 where two: "delete_remaining cl rest ?st1 = (r2, st2, tr2)"
      by (cases "delete_remaining cl rest ?st1") auto
    from Cons.IH[OF two] Cons.prems None two show ?thesis
      by (auto simp add: delete_configmap_eq)
  qed
qed

lemma ensure_one_deletes:
  assumes "ensure_one cl cm a st = (r, a', st', tr)" "keyed a" "k \<noteq> key_of cm"
  shows "filter (is_delete_at k) tr = []"
  using assms
  by (auto simp add: ensure_one_def Let_def delete_configmap_eq create_configmap_eq
      key_of_def [symmetric] dest: keyed_lookup split: option.splits if_splits)

lemma ensure_desired_deletes:
  "ensure_desired cl desired a st = (r, a', st', tr) \<Longrightarrow> keyed a \<Longrightarrow>
     k \<notin> key_of ` set desired \<Longrightarrow> filter (is_delete_at k) tr = []"
proof (induction desired arbitrary: a st r a' st' tr)
  case Nil
  then show ?case by simp
next
  case (Cons cm rest)
  obtain r1 a1 st1 tr1 where one: "ensure_one cl cm a st = (r1, a1, st1, tr1)"
    by (cases "ensure_one cl cm a st") auto
  have k1: "keyed a1" using one Cons.prems(2) by (rule ensure_one_keyed)
  have d1: "filter (is_delete_at k) tr1 = []"
    using one Cons.prems(2,3) by (auto intro: ensure_one_deletes)
  show ?case
  proof (cases r1)
    case (Some e)
    with Cons.prems one d1 show ?thesis by auto
  next
    case None
    obtain r2 a2 st2 tr2 where two: "ensure_desired cl rest a1 st1 = (r2, a2, st2, tr2)"
      by (cases "ensure_desired cl rest a1 st1") auto
    have "filter (is_delete_at k) tr2 = []"
      using two k1 Cons.prems(3) by (auto intro: Cons.IH)
    with Cons.prems one None two d1 show ?thesis by auto
  qed
qed

lemma is_delete_at_request: "is_delete_at k c = (\<exists>cm. fst c = Delete cm \<and> key_of cm = k)"
  by (cases c; cases "fst c") auto

lemma count_deletes_requests:
  "length (filter (is_delete_at k) tr) =
     length (filter (\<lambda>rq. \<exists>cm. rq = Delete cm \<and> key_of cm = k) (map fst tr))"
  by (induction tr) (auto simp add: is_delete_at_request)

lemma count_deletes_all:
  "length (filter (\<lambda>rq. \<exists>cm. rq = Delete cm \<and> key_of cm = k) (map Delete cms)) =
     length (filter (\<lambda>cm. key_of cm = k) cms)"
  by (induction cms) auto

lemma keyed_count:
  assumes "keyed a"
  shows "length (filter (\<lambda>p. key_of (snd p) = k) a) = (if k \<in> fst ` set a then 1 else 0)"
  using assms
proof (induction a)
  case Nil
  then show ?case by simp
next
  case (Cons p ps)
  then have ps: "keyed ps" and p: "fst p = key_of (snd p)" "fst p \<notin> fst ` set ps"
    by (auto simp add: keyed_def)
  show ?case using Cons.IH[OF ps] p by auto
qed

lemma keyed_mset: "mset a' = mset a \<Longrightarrow> keyed a \<Longrightarrow> keyed a'"
  unfolding keyed_def list_all_iff
  by (metis mset_eq_setD mset_map mset_eq_imp_distinct_iff)

lemma prefix_filter_length: "prefix xs ys \<Longrightarrow> length (filter P xs) \<le> length (filter P ys)"
  by (auto simp add: prefix_def)

subsection \<open>Replace ordering\<close>

lemma create_after_delete_Nil [simp]: "create_after_delete ecm d []"
  by (simp add: create_after_delete_def)

lemma create_after_delete_append:
  assumes "create_after_delete ecm d tr1" "create_after_delete ecm d tr2"
  shows "create_after_delete ecm d (tr1 @ tr2)"
  unfolding create_after_delete_def
proof (intro allI impI)
  fix j assume j: "j < length (tr1 @ tr2)" and c: "fst ((tr1 @ tr2) ! j) = Create d"
  show "0 < j \<and> fst ((tr1 @ tr2) ! (j - 1)) = Delete ecm"
  proof (cases "j < length tr1")
    case True
    then have "fst (tr1 ! j) = Create d" using c by (simp add: nth_append)
    with True assms(1) have "0 < j \<and> fst (tr1 ! (j - 1)) = Delete ecm"
      unfolding create_after_delete_def by blast
    moreover have "j - 1 < length tr1" using True by simp
    ultimately show ?thesis by (simp add: nth_append)
  next
    case False
    let ?j = "j - length tr1"
    have "?j < length tr2" "fst (tr2 ! ?j) = Create d"
      using False j c by (simp_all add: nth_append)
    with assms(2) have "0 < ?j \<and> fst (tr2 ! (?j - 1)) = Delete ecm"
      unfolding create_after_delete_def by blast
    then have pos: "0 < ?j" and del: "fst (tr2 ! (?j - 1)) = Delete ecm"
      by blast+
    have "\<not> j - 1 < length tr1" using pos by arith
    moreover have "j - 1 - length tr1 = ?j - 1" by simp
    ultimately have "(tr1 @ tr2) ! (j - 1) = tr2 ! (?j - 1)" by (simp only: nth_append if_False)
    with pos del show ?thesis by simp
  qed
qed

lemma create_after_delete_absent:
  assumes "\<And>res. (Create d, res) \<notin> set tr"
  shows "create_after_delete ecm d tr"
  unfolding create_after_delete_def
proof (intro allI impI)
  fix j assume "j < length tr" "fst (tr ! j) = Create d"
  then have "(Create d, snd (tr ! j)) \<in> set tr" by (metis nth_mem prod.collapse)
  with assms show "0 < j \<and> fst (tr ! (j - 1)) = Delete ecm" by blast
qed

lemma ensure_one_creates:
  "ensure_one cl cm a st = (r, a', st', tr) \<Longrightarrow> (Create d, res) \<in> set tr \<Longrightarrow> d = cm"
  by (auto simp add: ensure_one_def Let_def delete_configmap_eq create_configmap_eq
      split: option.splits if_splits)

lemma ensure_desired_creates:
  "ensure_desired cl desired a st = (r, a', st', tr) \<Longrightarrow> (Create d, res) \<in> set tr \<Longrightarrow>
     d \<in> set desired"
proof (induction desired arbitrary: a st r a' st' tr)
  case Nil
  then show ?case by simp
next
  case (Cons cm rest)
  obtain r1 a1 st1 tr1 where one: "ensure_one cl cm a st = (r1, a1, st1, tr1)"
    by (cases "ensure_one cl cm a st") auto
  have c1: "(Create d, res) \<in> set tr1 \<Longrightarrow> d = cm"
    using one by (rule ensure_one_creates)
  show ?case
  proof (cases r1)
    case (Some e)
    with Cons.prems one c1 show ?thesis by auto
  next
    case None
    obtain r2 a2 st2 tr2 where two: "ensure_desired cl rest a1 st1 = (r2, a2, st2, tr2)"
      by (cases "ensure_desired cl rest a1 st1") auto
    have "(Create d, res) \<in> set tr2 \<Longrightarrow> d \<in> set rest" using two by (rule Cons.IH)
    with Cons.prems one None two c1 show ?thesis by auto
  qed
qed

lemma delete_remaining_creates:
  assumes "delete_remaining cl cms st = (r, st', tr)"
  shows "(Create d, res) \<notin> set tr"
proof
  assume "(Create d, res) \<in> set tr"
  then have "Create d \<in> set (map fst tr)" by force
  moreover have "set (map fst tr) \<subseteq> set (map Delete cms)"
    using delete_remaining_requests[OF assms, THEN conjunct1] by (rule set_mono_prefix)
  ultimately show False by auto
qed

lemma ensure_one_replace:
  assumes "ensure_one cl d a st = (r, a', st', tr)"
    and "map_of a (key_of d) = Some ecm" "\<not> same_configmap ecm d"
  shows "create_after_delete ecm d tr \<and>
         (r = None \<longrightarrow> (\<exists>dres. tr = [(Delete ecm, dres), (Create d, None)]))"
  using assms
  by (auto simp add: ensure_one_def Let_def delete_configmap_eq create_configmap_eq
      key_of_def [symmetric] create_after_delete_def nth_Cons'
      split: option.splits if_splits)

lemma ensure_desired_replace:
  assumes "ensure_desired cl desired a st = (r, a', st', tr)"
    and "distinct (map key_of desired)"
    and "d \<in> set desired \<longrightarrow> map_of a (key_of d) = Some ecm \<and> \<not> same_configmap ecm d"
  shows "create_after_delete ecm d tr \<and>
         (r = None \<and> d \<in> set desired \<longrightarrow>
            (\<exists>pre dres post. tr = pre @ (Delete ecm, dres) # (Create d, None) # post))"
  using assms
proof (induction desired arbitrary: a st r a' st' tr)
  case Nil
  then show ?case by simp
next
  case (Cons cm rest)
  obtain r1 a1 st1 tr1 where one: "ensure_one cl cm a st = (r1, a1, st1, tr1)"
    by (cases "ensure_one cl cm a st") auto
  have notin: "key_of cm \<notin> key_of ` set rest" and dist: "distinct (map key_of rest)"
    using Cons.prems(2) by simp_all
  have first: "create_after_delete ecm d tr1 \<and>
      (d = cm \<and> r1 = None \<longrightarrow> (\<exists>dres. tr1 = [(Delete ecm, dres), (Create d, None)]))"
  proof (cases "d = cm")
    case True
    with Cons.prems(3) one ensure_one_replace[of cl d a st r1 a1 st1 tr1 ecm]
    show ?thesis by simp
  next
    case False
    then have "\<And>res. (Create d, res) \<notin> set tr1" using ensure_one_creates[OF one] by auto
    with False show ?thesis by (simp add: create_after_delete_absent)
  qed
  show ?case
  proof (cases r1)
    case (Some e)
    with Cons.prems(1) one first show ?thesis by auto
  next
    case None
    obtain r2 a2 st2 tr2 where two: "ensure_desired cl rest a1 st1 = (r2, a2, st2, tr2)"
      by (cases "ensure_desired cl rest a1 st1") auto
    have res: "r = r2" "tr = tr1 @ tr2" using Cons.prems(1) one None two by auto
    have "d \<in> set rest \<longrightarrow> map_of a1 (key_of d) = Some ecm \<and> \<not> same_configmap ecm d"
    proof
      assume d: "d \<in> set rest"
      then have "key_of d \<noteq> key_of cm" using notin by (metis imageI)
      then have "map_of a1 (key_of d) = map_of a (key_of d)"
        using one by (rule ensure_one_lookup_other[rotated])
      with d Cons.prems(3) show "map_of a1 (key_of d) = Some ecm \<and> \<not> same_configmap ecm d"
        by simp
    qed
    from Cons.IH[OF two dist this]
    have rest: "create_after_delete ecm d tr2"
      "r2 = None \<and> d \<in> set rest \<longrightarrow>
         (\<exists>pre dres post. tr2 = pre @ (Delete ecm, dres) # (Create d, None) # post)"
      by auto
    have order: "create_after_delete ecm d tr"
      using first rest(1) res(2) by (simp add: create_after_delete_append)
    have both: "\<exists>pre dres post. tr = pre @ (Delete ecm, dres) # (Create d, None) # post"
      if ok: "r = None" and d: "d \<in> set (cm # rest)"
    proof (cases "d = cm")
      case True
      with first None obtain dres where "tr1 = [(Delete ecm, dres), (Create d, None)]" by auto
      then have "tr = [] @ (Delete ecm, dres) # (Create d, None) # tr2" using res(2) by simp
      then show ?thesis by blast
    next
      case False
      with d ok res(1) rest(2) obtain pre dres post where
        "tr2 = pre @ (Delete ecm, dres) # (Create d, None) # post" by auto
      then have "tr = (tr1 @ pre) @ (Delete ecm, dres) # (Create d, None) # post"
        using res(2) by simp
      then show ?thesis by blast
    qed
    show ?thesis using order both by blast
  qed
qed

subsection \<open>Runs on the example values\<close>

lemmas step_simps =
  ensureDesiredConfigMaps_def ensure_one_def delete_configmap_def create_configmap_def
  IgnoreNotFound_def key_of_def [symmetric] stored_def Let_def

lemma run_replace_any:
  assumes "key_of new = key_of old" "\<not> same_configmap old new"
  shows "ensureDesiredConfigMaps apiserver seed [old] [new] (stored [old]) =
    (None, stored [],
     [(Delete old, None), (Create new, None), (Delete old, None)])"
  using assms by (simp add: step_simps)

lemma run_removed_any:
  assumes "key_of kept \<noteq> key_of stale" "same_configmap kept kept"
  shows "ensureDesiredConfigMaps apiserver seed [kept, stale] [kept] (stored [kept, stale]) =
    (None, stored [kept], [(Delete stale, None)])"
  using assms by (simp add: step_simps fun_eq_iff)

lemma run_lost_race_any:
  "ensureDesiredConfigMaps apiserver seed [stale] [] (stored []) =
    (None, stored [], [(Delete stale, Some NotFound)])"
  by (simp add: step_simps)

lemma run_unreachable_any:
  assumes "key_of first \<noteq> key_of second"
  shows "ensureDesiredConfigMaps unreachable [] [first, second] [] () =
    (Some (Delete_configmap (OtherError ''connection refused'')), (),
     [(Delete first, Some (OtherError ''connection refused''))])"
  using assms by (simp add: step_simps unreachable_def)

lemma run_repeated_same_any:
  assumes "same_configmap c c"
  shows "ensureDesiredConfigMaps apiserver seed [c] [c, c] (stored [c]) =
    (Some (Create_configmap AlreadyExists), stored [c], [(Create c, Some AlreadyExists)])"
  using assms by (simp add: step_simps)

lemma run_repeated_new_any:
  assumes "key_of new = key_of old" "same_configmap old old"
  shows "ensureDesiredConfigMaps apiserver seed [old] [old, new] (stored [old]) =
    (Some (Create_configmap AlreadyExists), stored [old], [(Create new, Some AlreadyExists)])"
  using assms by (simp add: step_simps)

lemma example_keys:
  "key_of deployment_chunk \<noteq> key_of service_chunk"
  "key_of service_chunk_new = key_of service_chunk"
  by (simp_all add: key_of_def deployment_chunk_def service_chunk_def service_chunk_new_def
      example_chunk_def)

lemma example_wf:
  "wf_configmap deployment_chunk" "wf_configmap service_chunk" "wf_configmap service_chunk_new"
  by (simp_all add: wf_configmap_def wf_map_def deployment_chunk_def service_chunk_def
      service_chunk_new_def example_chunk_def)

lemma example_differ: "\<not> same_configmap service_chunk service_chunk_new"
  by (simp add: same_configmap_def stringMapsEqual_def len_def lookup_def service_chunk_def
      service_chunk_new_def example_chunk_def)


lemma example_same: "same_configmap deployment_chunk deployment_chunk"
  by (simp add: same_configmap_iff example_wf content_eq_def)

lemma example_content_differ: "\<not> content_eq service_chunk service_chunk_new"
  using example_differ by (simp add: same_configmap_iff example_wf)

lemma example_same_service: "same_configmap service_chunk service_chunk"
  by (simp add: same_configmap_iff example_wf content_eq_def)

lemmas run_replace = run_replace_any [OF example_keys(2) example_differ, of "[]"]
lemmas run_removed = run_removed_any [OF example_keys(1) example_same, of "[]"]
lemmas run_lost_race = run_lost_race_any [of "[]" service_chunk]
lemmas run_unreachable = run_unreachable_any [OF example_keys(1)]
lemmas run_repeated_same = run_repeated_same_any [OF example_same_service, of "[]"]
lemmas run_repeated_new =
  run_repeated_new_any [OF example_keys(2) example_same_service, of "[]"]

section \<open>The reconciler: the claims\<close>

text \<open>
  C1 (convergence) fails on the code. The actual set holds the Service's chunk, the
  desired set holds the chunk of the same name with other content, and the store holds
  what the actual set says. The reconciler deletes the old chunk, creates the new one and
  returns no error; but the replace branch leaves the key in \<open>actualCms\<close>, so the last
  loop sends a second delete for that namespace and name, which removes the chunk just
  created. The store ends empty where the desired set has a chunk.
\<close>

theorem replaced_chunk_is_swept_away:
  "ensureDesiredConfigMaps apiserver [] [service_chunk] [service_chunk_new]
     (stored [service_chunk]) =
   (None, stored [],
    [(Delete service_chunk, None), (Create service_chunk_new, None),
     (Delete service_chunk, None)]) \<and>
   key_of service_chunk_new = key_of service_chunk \<and>
   stored [] (key_of service_chunk_new) = None"
  by (simp add: run_replace example_keys) (simp add: stored_def)

text \<open>
  C2 (safe replace ordering), as amended. Let the desired set hold no key twice, let \<open>d\<close> be
  desired, let \<open>ecm\<close> be the actual ConfigMap with the key of \<open>d\<close> (the last one
  listed under that key), and let the two differ in labels, annotations, data or binary
  data. Then, against any client and in any run, every create of \<open>d\<close> comes
  immediately after a delete of \<open>ecm\<close> that was answered with success or not-found;
  and a run that returns no error contains that delete followed at once by the successful
  create of \<open>d\<close>. (The store has one slot for a namespace and name, so two chunks are
  never held under one key.)
\<close>

theorem replace_deletes_before_it_creates:
  assumes run: "ensureDesiredConfigMaps cl seed actual desired st = (r, st', tr)"
    and keys: "distinct (map key_of desired)"
    and d: "d \<in> set desired" "map_of (index_actual actual []) (key_of d) = Some ecm"
    and differ: "wf_configmap ecm" "wf_configmap d" "\<not> content_eq ecm d"
  shows "(\<forall>pre res post. tr = pre @ (Create d, res) # post \<longrightarrow>
            (\<exists>pre' dres. pre = pre' @ [(Delete ecm, dres)] \<and>
               (dres = None \<or> dres = Some NotFound))) \<and>
         (r = None \<longrightarrow>
            (\<exists>pre dres post. tr = pre @ (Delete ecm, dres) # (Create d, None) # post))"
proof -
  let ?idx = "index_actual actual []"
  have ns: "\<not> same_configmap ecm d" using differ by (simp add: same_configmap_iff)
  obtain r1 a1 st1 tr1 where one: "ensure_desired cl desired ?idx st = (r1, a1, st1, tr1)"
    by (cases "ensure_desired cl desired ?idx st") auto
  from ensure_desired_replace[OF one keys, of d ecm] d ns
  have loop: "create_after_delete ecm d tr1"
    "r1 = None \<longrightarrow> (\<exists>pre dres post. tr1 = pre @ (Delete ecm, dres) # (Create d, None) # post)"
    by auto
  have "create_after_delete ecm d tr \<and>
        (r = None \<longrightarrow> (\<exists>pre dres post. tr = pre @ (Delete ecm, dres) # (Create d, None) # post))"
  proof (cases r1)
    case (Some e)
    with run one loop show ?thesis by (auto simp add: ensureDesiredConfigMaps_def)
  next
    case None
    obtain r2 st2 tr2 where
      two: "delete_remaining cl (map snd (range_order seed a1)) st1 = (r2, st2, tr2)"
      by (cases "delete_remaining cl (map snd (range_order seed a1)) st1") auto
    have res: "r = r2" "tr = tr1 @ tr2"
      using run one None two by (auto simp add: ensureDesiredConfigMaps_def)
    have "create_after_delete ecm d tr2"
      using delete_remaining_creates[OF two] by (rule create_after_delete_absent)
    with loop(1) res(2) have "create_after_delete ecm d tr"
      by (simp add: create_after_delete_append)
    moreover from loop(2) None obtain pre dres post where
      "tr1 = pre @ (Delete ecm, dres) # (Create d, None) # post" by auto
    then have "tr = pre @ (Delete ecm, dres) # (Create d, None) # (post @ tr2)"
      using res(2) by simp
    ultimately show ?thesis by blast
  qed
  then have order: "create_after_delete ecm d tr"
    and both: "r = None \<longrightarrow>
      (\<exists>pre dres post. tr = pre @ (Delete ecm, dres) # (Create d, None) # post)" by auto
  have stops: "stops_at_error tr"
    using ensureDesiredConfigMaps_shape[OF run] by (simp add: run_shape_def)
  have before: "\<exists>pre' dres. pre = pre' @ [(Delete ecm, dres)] \<and>
      (dres = None \<or> dres = Some NotFound)"
    if tr: "tr = pre @ (Create d, res) # post" for pre res post
  proof -
    have "length pre < length tr" "fst (tr ! length pre) = Create d" using tr by simp_all
    with order have pos: "0 < length pre" and del: "fst (tr ! (length pre - 1)) = Delete ecm"
      by (auto simp add: create_after_delete_def)
    from pos have pre: "pre = butlast pre @ [last pre]" by simp
    have "tr ! (length pre - 1) = last pre"
      using pos tr by (simp add: nth_append last_conv_nth)
    with del obtain dres where l: "last pre = (Delete ecm, dres)"
      by (cases "last pre") auto
    have "call_error (tr ! (length pre - 1)) = None"
    proof (cases "call_error (tr ! (length pre - 1))")
      case None
      then show ?thesis .
    next
      case (Some e)
      have "length pre - 1 < length tr" using tr by simp
      from stops_at_error_nth[OF stops this Some]
      have "Suc (length pre - 1) = length tr" by simp
      moreover have "length tr = length pre + Suc (length post)" using tr by simp
      ultimately have False using pos by arith
      then show ?thesis ..
    qed
    then have "IgnoreNotFound dres = None"
      using l \<open>tr ! (length pre - 1) = last pre\<close> by simp
    then have "dres = None \<or> dres = Some NotFound"
      by (auto simp add: IgnoreNotFound_def split: option.splits client_error.splits)
    with pre l show ?thesis by metis
  qed
  show ?thesis using before both by blast
qed

text \<open>The theorem at the replacement of the Service's chunk.\<close>

theorem replace_deletes_before_it_creates_witness:
  "distinct (map key_of [service_chunk_new]) \<and>
   map_of (index_actual [service_chunk] []) (key_of service_chunk_new) = Some service_chunk \<and>
   wf_configmap service_chunk \<and> wf_configmap service_chunk_new \<and>
   \<not> content_eq service_chunk service_chunk_new \<and>
   ensureDesiredConfigMaps apiserver [] [service_chunk] [service_chunk_new]
     (stored [service_chunk]) =
   (None, stored [],
    [(Delete service_chunk, None), (Create service_chunk_new, None),
     (Delete service_chunk, None)])"
proof -
  have idx: "map_of (index_actual [service_chunk] []) (key_of service_chunk_new) =
      Some service_chunk"
    by (simp add: example_keys key_of_def [symmetric])
  have d: "distinct (map key_of [service_chunk_new])" "service_chunk_new \<in> set [service_chunk_new]"
    by simp_all
  from replace_deletes_before_it_creates
    [OF run_replace d idx example_wf(2,3) example_content_differ]
  show ?thesis
    using idx example_wf example_content_differ run_replace by simp
qed

text \<open>
  C2 as stated fails when the desired set holds a key twice. The actual set holds the
  Service's chunk; the desired set holds that chunk and, under the same name, the chunk
  with other content. The first desired chunk equals the actual one, so the key leaves
  \<open>actualCms\<close>; the second is then created with no delete before it, and the store
  refuses the create.
\<close>

theorem repeated_key_is_created_without_delete:
  "service_chunk_new \<in> set [service_chunk, service_chunk_new] \<and>
   map_of (index_actual [service_chunk] []) (key_of service_chunk_new) = Some service_chunk \<and>
   wf_configmap service_chunk \<and> wf_configmap service_chunk_new \<and>
   \<not> content_eq service_chunk service_chunk_new \<and>
   ensureDesiredConfigMaps apiserver [] [service_chunk] [service_chunk, service_chunk_new]
     (stored [service_chunk]) =
   (Some (Create_configmap AlreadyExists), stored [service_chunk],
    [(Create service_chunk_new, Some AlreadyExists)])"
proof -
  have "map_of (index_actual [service_chunk] []) (key_of service_chunk_new) =
      Some service_chunk"
    by (simp add: example_keys key_of_def [symmetric])
  then show ?thesis
    using example_wf example_content_differ run_repeated_new by simp
qed

text \<open>
  C3 (garbage collection), as amended. Let \<open>k\<close> be the key of an actual ConfigMap and
  of no desired one. Against any client, a run sends at most one delete for \<open>k\<close>, and
  a run that returns no error sends exactly one.
\<close>

theorem stale_key_deleted_once:
  assumes run: "ensureDesiredConfigMaps cl seed actual desired st = (r, st', tr)"
    and k: "k \<in> key_of ` set actual" "k \<notin> key_of ` set desired"
  shows "length (filter (is_delete_at k) tr) \<le> 1 \<and>
         (r = None \<longrightarrow> length (filter (is_delete_at k) tr) = 1)"
proof -
  let ?idx = "index_actual actual []"
  have idx: "keyed ?idx" by (rule keyed_index_actual) (simp add: keyed_def)
  obtain r1 a1 st1 tr1 where one: "ensure_desired cl desired ?idx st = (r1, a1, st1, tr1)"
    by (cases "ensure_desired cl desired ?idx st") auto
  have d1: "filter (is_delete_at k) tr1 = []"
    using one idx k(2) by (rule ensure_desired_deletes)
  show ?thesis
  proof (cases r1)
    case (Some e)
    with run one d1 show ?thesis by (auto simp add: ensureDesiredConfigMaps_def)
  next
    case None
    let ?left = "range_order seed a1"
    obtain r2 st2 tr2 where two: "delete_remaining cl (map snd ?left) st1 = (r2, st2, tr2)"
      by (cases "delete_remaining cl (map snd ?left) st1") auto
    have res: "r = r2" "tr = tr1 @ tr2"
      using run one None two by (auto simp add: ensureDesiredConfigMaps_def)
    have k1: "keyed a1" using one idx by (rule ensure_desired_keyed)
    have "map_of a1 k = map_of ?idx k" using one k(2) by (rule ensure_desired_lookup_other)
    moreover have "k \<in> fst ` set ?idx" using k(1) by (simp add: keys_index_actual)
    ultimately have "k \<in> fst ` set a1"
      by (metis domIff dom_map_of_conv_image_fst)
    then have kin: "k \<in> fst ` set ?left"
      using mset_range_order[of seed a1] by (metis mset_eq_setD)
    have "keyed ?left" using mset_range_order k1 by (rule keyed_mset)
    then have all: "length (filter (\<lambda>cm. key_of cm = k) (map snd ?left)) = 1"
      using kin by (simp add: keyed_count filter_map comp_def)
    from delete_remaining_requests[OF two]
    have pre: "prefix (map fst tr2) (map Delete (map snd ?left))"
      and full: "r2 = None \<longrightarrow> map fst tr2 = map Delete (map snd ?left)" by auto
    have "length (filter (is_delete_at k) tr2) \<le>
            length (filter (\<lambda>cm. key_of cm = k) (map snd ?left))"
      unfolding count_deletes_requests count_deletes_all [symmetric]
      using pre by (rule prefix_filter_length)
    then have "length (filter (is_delete_at k) tr2) \<le> 1"
      using all by simp
    moreover have "length (filter (is_delete_at k) tr2) = 1" if "r2 = None"
    proof -
      have "map fst tr2 = map Delete (map snd ?left)" using full that by blast
      then have "length (filter (is_delete_at k) tr2) =
          length (filter (\<lambda>cm. key_of cm = k) (map snd ?left))"
        unfolding count_deletes_requests count_deletes_all [symmetric] by (rule arg_cong)
      then show ?thesis using all by simp
    qed
    ultimately show ?thesis using res d1 by auto
  qed
qed

text \<open>
  The theorem at the removal of the Service from the bundle: the actual set holds the
  chunks of the Deployment and the Service, the desired set the Deployment's only.
\<close>

theorem stale_key_deleted_once_witness:
  "key_of service_chunk \<in> key_of ` set [deployment_chunk, service_chunk] \<and>
   key_of service_chunk \<notin> key_of ` set [deployment_chunk] \<and>
   fst (ensureDesiredConfigMaps apiserver [] [deployment_chunk, service_chunk]
          [deployment_chunk] (stored [deployment_chunk, service_chunk])) = None \<and>
   length (filter (is_delete_at (key_of service_chunk))
     (snd (snd (ensureDesiredConfigMaps apiserver [] [deployment_chunk, service_chunk]
          [deployment_chunk] (stored [deployment_chunk, service_chunk]))))) = 1"
proof -
  have k: "key_of service_chunk \<in> key_of ` set [deployment_chunk, service_chunk]"
    "key_of service_chunk \<notin> key_of ` set [deployment_chunk]"
    using example_keys(1) by auto
  from stale_key_deleted_once[OF run_removed k] k show ?thesis
    by (simp add: run_removed)
qed

text \<open>
  C3 as stated fails twice. When a chunk is replaced, its key gets two deletes in one run
  (one in the replace branch, one in the last loop). And a run that stops at a failed
  delete sends no delete for the stale keys it has not reached.
\<close>

theorem stale_key_counterexample:
  "length (filter (is_delete_at (key_of service_chunk))
     (snd (snd (ensureDesiredConfigMaps apiserver [] [service_chunk] [service_chunk_new]
        (stored [service_chunk]))))) = 2 \<and>
   key_of service_chunk \<in> key_of ` set [deployment_chunk, service_chunk] \<and>
   key_of service_chunk \<notin> key_of ` set [] \<and>
   length (filter (is_delete_at (key_of service_chunk))
     (snd (snd (ensureDesiredConfigMaps unreachable [] [deployment_chunk, service_chunk] []
        ())))) = 0"
  using example_keys(1) by (simp add: run_replace run_unreachable)

text \<open>
  C4 (idempotence), as amended. Let the desired set hold no key twice, let every actual ConfigMap
  have the key of a desired one, and let every desired ConfigMap have an actual one under
  its key with the same labels, annotations, data and binary data. Then the reconciler
  sends no request to the client, returns no error and leaves the store as it was.
\<close>

theorem unchanged_desired_set_is_left_alone:
  assumes run: "ensureDesiredConfigMaps cl seed actual desired st = (r, st', tr)"
    and keys: "distinct (map key_of desired)" "key_of ` set actual \<subseteq> key_of ` set desired"
    and same: "\<forall>d \<in> set desired. \<exists>a. map_of (index_actual actual []) (key_of d) = Some a \<and>
                 wf_configmap a \<and> wf_configmap d \<and> content_eq a d"
  shows "tr = [] \<and> r = None \<and> st' = st"
proof -
  have "\<forall>d \<in> set desired. \<exists>ecm. map_of (index_actual actual []) (key_of d) = Some ecm \<and>
          same_configmap ecm d"
    using same by (metis same_configmap_iff)
  from ensure_desired_same[OF keys(1) this, of cl st] obtain a' where
    loop: "ensure_desired cl desired (index_actual actual []) st = (None, a', st, [])"
      and left: "fst ` set a' = fst ` set (index_actual actual []) - key_of ` set desired"
    by auto
  have "fst ` set a' = {}" using left keys(2) by (auto simp add: keys_index_actual)
  then have "a' = []" by simp
  with loop run show ?thesis by (simp add: ensureDesiredConfigMaps_def)
qed

text \<open>The theorem at an actual set that lists the desired chunks in another order.\<close>

theorem unchanged_desired_set_is_left_alone_witness:
  "distinct (map key_of [deployment_chunk, service_chunk]) \<and>
   ensureDesiredConfigMaps apiserver [] [service_chunk, deployment_chunk]
     [deployment_chunk, service_chunk] (stored [deployment_chunk, service_chunk]) =
   (None, stored [deployment_chunk, service_chunk], [])"
proof -
  let ?st = "stored [deployment_chunk, service_chunk]"
  obtain r st' tr where run:
    "ensureDesiredConfigMaps apiserver [] [service_chunk, deployment_chunk]
       [deployment_chunk, service_chunk] ?st = (r, st', tr)"
    by (cases "ensureDesiredConfigMaps apiserver [] [service_chunk, deployment_chunk]
       [deployment_chunk, service_chunk] ?st") auto
  have d: "distinct (map key_of [deployment_chunk, service_chunk])"
    using example_keys(1) by simp
  have sub: "key_of ` set [service_chunk, deployment_chunk] \<subseteq>
      key_of ` set [deployment_chunk, service_chunk]" by auto
  have idx: "map_of (index_actual [service_chunk, deployment_chunk] []) (key_of deployment_chunk)
        = Some deployment_chunk"
      "map_of (index_actual [service_chunk, deployment_chunk] []) (key_of service_chunk)
        = Some service_chunk"
    using example_keys(1) by (simp_all add: key_of_def [symmetric] update_conv')
  have c: "content_eq deployment_chunk deployment_chunk" "content_eq service_chunk service_chunk"
    by (simp_all add: content_eq_def)
  have same: "\<forall>d \<in> set [deployment_chunk, service_chunk].
      \<exists>a. map_of (index_actual [service_chunk, deployment_chunk] []) (key_of d) = Some a \<and>
        wf_configmap a \<and> wf_configmap d \<and> content_eq a d"
  proof
    fix d assume "d \<in> set [deployment_chunk, service_chunk]"
    then consider "d = deployment_chunk" | "d = service_chunk" by auto
    then show "\<exists>a. map_of (index_actual [service_chunk, deployment_chunk] []) (key_of d) = Some a \<and>
        wf_configmap a \<and> wf_configmap d \<and> content_eq a d"
      using idx example_wf(1,2) c by cases blast+
  qed
  from unchanged_desired_set_is_left_alone[OF run d sub same] run d show ?thesis by simp
qed

text \<open>
  C4 as stated fails when the desired set holds a key twice. The actual set holds the
  Service's chunk and the desired set holds that chunk twice (the same document twice in
  the manifests). The first desired chunk takes the key out of \<open>actualCms\<close>; the
  second is sent to the store as a create, which the store refuses, and the run returns
  that error.
\<close>

theorem repeated_desired_chunk_is_created_again:
  "key_of ` set [service_chunk] = key_of ` set [service_chunk, service_chunk] \<and>
   map_of (index_actual [service_chunk] []) (key_of service_chunk) = Some service_chunk \<and>
   wf_configmap service_chunk \<and> content_eq service_chunk service_chunk \<and>
   ensureDesiredConfigMaps apiserver [] [service_chunk] [service_chunk, service_chunk]
     (stored [service_chunk]) =
   (Some (Create_configmap AlreadyExists), stored [service_chunk],
    [(Create service_chunk, Some AlreadyExists)])"
proof -
  have "map_of (index_actual [service_chunk] []) (key_of service_chunk) = Some service_chunk"
    by (simp add: key_of_def [symmetric])
  moreover have "content_eq service_chunk service_chunk" by (simp add: content_eq_def)
  ultimately show ?thesis
    using example_wf run_repeated_same by simp
qed

text \<open>
  C8 (not-found on delete is success). A run against a client is the same run as against
  the client that answers success to every delete the first one answers with not-found:
  the same error or none, the same final store, the same requests. A delete answered with
  success or not-found does not end the run: another call follows it or the run returns
  no error. A delete answered with any other error is the last call of the run, and the
  run returns that error.
\<close>

theorem not_found_on_delete_is_success:
  assumes "ensureDesiredConfigMaps cl seed actual desired st = (r, st', tr)"
  shows "ensureDesiredConfigMaps (answering_found cl) seed actual desired st =
           (r, st', map found_answer tr) \<and>
         (\<forall>i cm err. i < length tr \<and> tr ! i = (Delete cm, err) \<and>
              (err = None \<or> err = Some NotFound) \<longrightarrow>
            Suc i < length tr \<or> r = None) \<and>
         (\<forall>i cm e. i < length tr \<and> tr ! i = (Delete cm, Some e) \<and> e \<noteq> NotFound \<longrightarrow>
            Suc i = length tr \<and> r = Some (Delete_configmap e))"
proof -
  have shape: "r = first_error tr" "stops_at_error tr"
    using ensureDesiredConfigMaps_shape[OF assms] by (simp_all add: run_shape_def)
  have sim: "ensureDesiredConfigMaps (answering_found cl) seed actual desired st =
           (r, st', map found_answer tr)"
    by (simp add: ensureDesiredConfigMaps_found assms)
  have ok: "Suc i < length tr \<or> r = None"
    if "i < length tr" "tr ! i = (Delete cm, err)" "err = None \<or> err = Some NotFound"
    for i cm err
  proof (cases "Suc i < length tr")
    case True
    then show ?thesis by simp
  next
    case False
    with that(1) have last: "Suc i = length tr" by simp
    have "call_error (tr ! i) = None"
      using that(2,3) by (auto simp add: IgnoreNotFound_def)
    from stops_at_error_nth_ok[OF that(1) this last shape(2)] shape(1)
    show ?thesis by simp
  qed
  have bad: "Suc i = length tr \<and> r = Some (Delete_configmap e)"
    if "i < length tr" "tr ! i = (Delete cm, Some e)" "e \<noteq> NotFound" for i cm e
  proof -
    have "call_error (tr ! i) = Some (Delete_configmap e)"
      using that(2,3) by (cases e) (simp_all add: IgnoreNotFound_def)
    from stops_at_error_nth[OF shape(2) that(1) this] shape(1)
    show ?thesis by simp
  qed
  show ?thesis using sim ok bad by blast
qed

text \<open>
  The theorem at a stale chunk that is already gone from the store, and at a store that
  refuses every request.
\<close>

theorem not_found_on_delete_is_success_witness:
  "ensureDesiredConfigMaps apiserver [] [service_chunk] [] (stored []) =
     (None, stored [], [(Delete service_chunk, Some NotFound)]) \<and>
   ensureDesiredConfigMaps (answering_found apiserver) [] [service_chunk] [] (stored []) =
     (None, stored [], [(Delete service_chunk, None)]) \<and>
   ensureDesiredConfigMaps unreachable [] [deployment_chunk, service_chunk] [] () =
     (Some (Delete_configmap (OtherError ''connection refused'')), (),
      [(Delete deployment_chunk, Some (OtherError ''connection refused''))])"
  using not_found_on_delete_is_success[OF run_lost_race, THEN conjunct1]
    not_found_on_delete_is_success[OF run_unreachable, THEN conjunct2, THEN conjunct2,
      rule_format, of 0 deployment_chunk "OtherError ''connection refused''"]
  by (simp add: run_lost_race run_unreachable IgnoreNotFound_def)

section \<open>Properties of the builder\<close>

lemma length_Sprintf_x: "length (Sprintf_x bs) = 2 * length bs"
  by (induction bs) (simp_all add: Sprintf_x_def hex_byte_def)

lemma desired_configmap_Inr:
  assumes "desired_configmap ext u bundle resolvedImage obj = Inr cm"
  shows "buildable ext obj \<and>
         Name cm = ''bundle-object-'' @ BundleName u @ ''-'' @ take 8 (object_hash ext obj) \<and>
         length (take 8 (object_hash ext obj)) = 8 \<and>
         Namespace cm = Namespace_u u \<and>
         Labels cm = Make_map [(''kuberpak.io/bundle-name'', BundleName u)] \<and>
         Annotations cm = Nil_map \<and>
         Immutable cm = Some True \<and>
         Data cm = Make_map
           [(''bundle-image'', resolvedImage),
            (''object-sha256'', object_hash ext obj),
            (''object-kind'', fst (ToAPIVersionAndKind (GetGroupVersionKind ext obj))),
            (''object-apiversion'', snd (ToAPIVersionAndKind (GetGroupVersionKind ext obj))),
            (''object-name'', GetName ext obj),
            (''object-namespace'', GetNamespace ext obj)] \<and>
         BinaryData cm = Make_map [(''object'', object_payload ext obj)]"
  using assms
  by (auto simp add: desired_configmap_def buildable_def object_hash_def object_payload_def
      getConfigMapLabels_def Let_def length_Sprintf_x
      split: sum.splits gzip_result.splits prod.splits if_splits)

lemma desired_configmap_buildable:
  assumes "buildable ext obj" "\<And>cm. \<exists>refs. SetControllerReference ext bundle cm = Inr refs"
  shows "\<exists>cm. desired_configmap ext u bundle resolvedImage obj = Inr cm"
proof -
  from assms(1) obtain objData objCompressed where
    m: "yaml_Marshal ext obj = Inr objData" "4 \<le> length (sha256_Sum256 ext objData)"
      "gzip ext objData = Compressed objCompressed"
    by (auto simp add: buildable_def split: sum.splits gzip_result.splits)
  have "SetControllerReference ext bundle cm \<noteq> Inl err" for cm err
    using assms(2)[of cm] by auto
  then show ?thesis
    using m
    by (auto simp add: desired_configmap_def Let_def length_Sprintf_x
        split: prod.splits sum.splits)
qed

lemma getDesiredConfigMaps_loop_Inr:
  "getDesiredConfigMaps_loop ext u bundle resolvedImage objects acc = Inr cms \<Longrightarrow>
     \<exists>new. cms = acc @ new \<and>
       list_all2 (\<lambda>obj cm. desired_configmap ext u bundle resolvedImage obj = Inr cm) objects new"
proof (induction objects arbitrary: acc)
  case Nil
  then show ?case by simp
next
  case (Cons obj rest)
  from Cons.prems obtain cm where
    cm: "desired_configmap ext u bundle resolvedImage obj = Inr cm"
    and rest: "getDesiredConfigMaps_loop ext u bundle resolvedImage rest (acc @ [cm]) = Inr cms"
    by (auto split: sum.splits)
  from Cons.IH[OF rest] obtain new where
    "cms = (acc @ [cm]) @ new"
    "list_all2 (\<lambda>obj cm. desired_configmap ext u bundle resolvedImage obj = Inr cm) rest new"
    by blast
  with cm have "cms = acc @ (cm # new) \<and>
    list_all2 (\<lambda>obj cm. desired_configmap ext u bundle resolvedImage obj = Inr cm)
      (obj # rest) (cm # new)" by simp
  then show ?case by blast
qed

lemma getDesiredConfigMaps_loop_total:
  assumes "\<And>obj. obj \<in> set objects \<Longrightarrow>
      \<exists>cm. desired_configmap ext u bundle resolvedImage obj = Inr cm"
  shows "\<exists>cms. getDesiredConfigMaps_loop ext u bundle resolvedImage objects acc = Inr cms"
  using assms
proof (induction objects arbitrary: acc)
  case Nil
  then show ?case by simp
next
  case (Cons obj rest)
  from Cons.prems[of obj] obtain cm where
    "desired_configmap ext u bundle resolvedImage obj = Inr cm" by auto
  moreover have "\<exists>cms. getDesiredConfigMaps_loop ext u bundle resolvedImage rest (acc @ [cm]) =
      Inr cms"
    using Cons.prems by (intro Cons.IH) auto
  ultimately show ?case by simp
qed

lemma getDesiredConfigMaps_Inr:
  assumes "getDesiredConfigMaps ext u bundle resolvedImage objects = Inr cms"
  shows "length cms = length objects \<and>
         (\<forall>i < length objects.
            desired_configmap ext u bundle resolvedImage (objects ! i) = Inr (cms ! i))"
  using getDesiredConfigMaps_loop_Inr[of ext u "bundle" resolvedImage objects "[]" cms] assms
  by (auto simp add: getDesiredConfigMaps_def list_all2_conv_all_nth)

text \<open>
  The two results of \<open>ToAPIVersionAndKind\<close> are the API version and the kind, in this
  order; \<open>getDesiredConfigMaps\<close> binds them to \<open>kind\<close> and \<open>apiVersion\<close>. So the
  field \<open>object-kind\<close> holds the API version of the object and \<open>object-apiversion\<close>
  its kind.
\<close>

lemma kind_and_apiversion_swapped:
  assumes "desired_configmap ext u bundle resolvedImage obj = Inr cm"
    and "GetGroupVersionKind ext obj = \<lparr> Group = g, Version = v, Kind = k \<rparr>" "g \<noteq> []"
  shows "lookup (Data cm) ''object-kind'' = Some (g @ ''/'' @ v) \<and>
         lookup (Data cm) ''object-apiversion'' = Some k"
  using desired_configmap_Inr[OF assms(1)] assms(2,3)
  by (simp add: lookup_def ToAPIVersionAndKind_def)

subsection \<open>The example objects\<close>

text \<open>
  The digests of the encodings of the ConfigMaps \<open>cm-43814\<close> and \<open>cm-145197\<close>: they
  agree on the first four bytes.
\<close>

lemma digest_1:
  "sha256 (object_yaml (config_object ''cm-43814'')) = [0x6c, 0x7a, 0x6e, 0x11, 0x12, 0xb8, 0x21, 0x22, 0x90, 0xfd, 0xe4, 0xef, 0x0d, 0x8f, 0x2d, 0x80, 0x9d, 0x98, 0x80, 0x5a, 0x44, 0x15, 0xa9, 0xdd, 0xce, 0x8d, 0xb1, 0xd0, 0x40, 0x82, 0x8f, 0x46]"
  by (simp add: config_object_def bytes_of_string_def sha_eval del: round.simps add_state.simps)

lemma digest_2:
  "sha256 (object_yaml (config_object ''cm-145197'')) = [0x6c, 0x7a, 0x6e, 0x11, 0xbf, 0x00, 0x56, 0x4f, 0xbb, 0x8c, 0x2b, 0x21, 0xc5, 0x99, 0xae, 0x8f, 0x10, 0x87, 0x18, 0x86, 0xa4, 0x01, 0xb7, 0xe5, 0xb5, 0x16, 0xe9, 0x38, 0xf7, 0x7f, 0xd5, 0xfa]"
  by (simp add: config_object_def bytes_of_string_def sha_eval del: round.simps add_state.simps)

lemma config_object_fields:
  "object_name (config_object name) = name"
  "object_namespace (config_object name) = []"
  "object_gvk (config_object name) = \<lparr> Group = [], Version = ''v1'', Kind = ''ConfigMap'' \<rparr>"
  by (simp_all add: config_object_def)

lemmas hex_eval = Sprintf_x_def hex_byte_def hex_digit_def

lemma hash_1:
  "object_hash example_externals (config_object ''cm-43814'') = ''6c7a6e1112b8212290fde4ef0d8f2d809d98805a4415a9ddce8db1d040828f46''"
  by (simp add: object_hash_def example_externals_def digest_1 hex_eval)

lemma hash_2:
  "object_hash example_externals (config_object ''cm-145197'') = ''6c7a6e11bf00564fbb8c2b21c599ae8f10871886a401b7e5b516e938f77fd5fa''"
  by (simp add: object_hash_def example_externals_def digest_2 hex_eval)

lemma buildable_examples:
  "buildable example_externals (config_object ''cm-43814'')"
  "buildable example_externals (config_object ''cm-145197'')"
  by (simp_all add: buildable_def example_externals_def digest_1 digest_2)

lemma example_owner:
  "\<forall>cm. \<exists>refs. SetControllerReference example_externals example_bundle cm = Inr refs"
  by (simp add: example_externals_def)


lemma payload_1:
  "object_payload example_externals (config_object ''cm-43814'') =
     0x1f # 0x8b # object_yaml (config_object ''cm-43814'')"
  by (simp add: object_payload_def example_externals_def)

lemma example_yaml_differ:
  "object_yaml (config_object ''cm-43814'') \<noteq> object_yaml (config_object ''cm-145197'')"
  by (simp add: config_object_def bytes_of_string_def)

section \<open>The builder: the claims\<close>

text \<open>
  C5 (naming collisions are fatal), as amended. \<open>getDesiredConfigMaps\<close> has no check
  for collisions. It returns a desired set whenever every object can be marshalled,
  hashed and compressed and the owner reference can be set; and in the set it returns,
  two ConfigMaps have the same namespace and name exactly when the content hashes of
  their objects agree on the first 8 hexadecimal characters. A collision gives a
  duplicate key, not an error.
\<close>

theorem collisions_are_not_detected:
  "((\<forall>obj \<in> set objects. buildable ext obj) \<and>
    (\<forall>cm. \<exists>refs. SetControllerReference ext bundle cm = Inr refs) \<longrightarrow>
      (\<exists>cms. getDesiredConfigMaps ext u bundle resolvedImage objects = Inr cms)) \<and>
   (\<forall>cms i j. getDesiredConfigMaps ext u bundle resolvedImage objects = Inr cms \<and>
        i < length objects \<and> j < length objects \<longrightarrow>
      (key_of (cms ! i) = key_of (cms ! j) \<longleftrightarrow>
         take 8 (object_hash ext (objects ! i)) = take 8 (object_hash ext (objects ! j))))"
proof -
  have total: "\<exists>cms. getDesiredConfigMaps ext u bundle resolvedImage objects = Inr cms"
    if ok: "(\<forall>obj \<in> set objects. buildable ext obj) \<and>
      (\<forall>cm. \<exists>refs. SetControllerReference ext bundle cm = Inr refs)"
  proof -
    have "\<exists>cm. desired_configmap ext u bundle resolvedImage obj = Inr cm"
      if "obj \<in> set objects" for obj
      using ok that by (intro desired_configmap_buildable) auto
    then show ?thesis
      unfolding getDesiredConfigMaps_def by (rule getDesiredConfigMaps_loop_total)
  qed
  have keys: "key_of (cms ! i) = key_of (cms ! j) \<longleftrightarrow>
      take 8 (object_hash ext (objects ! i)) = take 8 (object_hash ext (objects ! j))"
    if run: "getDesiredConfigMaps ext u bundle resolvedImage objects = Inr cms"
      and ij: "i < length objects" "j < length objects" for cms i j
  proof -
    have "desired_configmap ext u bundle resolvedImage (objects ! i) = Inr (cms ! i)"
      "desired_configmap ext u bundle resolvedImage (objects ! j) = Inr (cms ! j)"
      using getDesiredConfigMaps_Inr[OF run] ij by simp_all
    from desired_configmap_Inr[OF this(1)] desired_configmap_Inr[OF this(2)]
    show ?thesis by (simp add: key_of_def)
  qed
  show ?thesis using total keys by blast
qed

text \<open>The theorem at the two ConfigMap manifests whose hashes collide.\<close>

theorem collisions_are_not_detected_witness:
  "buildable example_externals (config_object ''cm-43814'') \<and>
   buildable example_externals (config_object ''cm-145197'') \<and>
   take 8 (object_hash example_externals (config_object ''cm-43814'')) =
   take 8 (object_hash example_externals (config_object ''cm-145197'')) \<and>
   (\<exists>cms. getDesiredConfigMaps example_externals example_unpacker example_bundle
            ''registry/bundle@sha256:1111''
            [config_object ''cm-43814'', config_object ''cm-145197''] = Inr cms \<and>
          key_of (cms ! 0) = key_of (cms ! 1))"
proof -
  let ?objects = "[config_object ''cm-43814'', config_object ''cm-145197'']"
  note inst = collisions_are_not_detected
    [of ?objects example_externals example_bundle example_unpacker
        "''registry/bundle@sha256:1111''"]
  have "\<forall>obj \<in> set ?objects. buildable example_externals obj"
    using buildable_examples by simp
  with inst[THEN conjunct1] example_owner obtain cms where
    run: "getDesiredConfigMaps example_externals example_unpacker example_bundle
            ''registry/bundle@sha256:1111'' ?objects = Inr cms" by blast
  have same: "take 8 (object_hash example_externals (?objects ! 0)) =
      take 8 (object_hash example_externals (?objects ! 1))"
    by (simp add: hash_1 hash_2)
  from inst[THEN conjunct2, rule_format, of cms 0 1] run same
  have "key_of (cms ! 0) = key_of (cms ! 1)" by simp
  with run same buildable_examples show ?thesis by simp
qed

text \<open>
  C5 as stated fails: the manifests of the ConfigMaps \<open>cm-43814\<close> and \<open>cm-145197\<close>
  have different encodings whose SHA-256 digests both begin with \<open>6c7a6e11\<close>, and the
  builder returns two ConfigMaps of one namespace and name for them.
\<close>

theorem colliding_objects_are_both_returned:
  "object_yaml (config_object ''cm-43814'') \<noteq> object_yaml (config_object ''cm-145197'') \<and>
   map_sum id (map key_of)
     (getDesiredConfigMaps example_externals example_unpacker example_bundle
        ''registry/bundle@sha256:1111''
        [config_object ''cm-43814'', config_object ''cm-145197'']) =
   Inr [(''kuberpak-system'', ''bundle-object-mybundle-6c7a6e11''),
        (''kuberpak-system'', ''bundle-object-mybundle-6c7a6e11'')]"
  by (simp add: example_yaml_differ)
     (simp add: getDesiredConfigMaps_def desired_configmap_def example_externals_def
       example_unpacker_def digest_1 digest_2 hex_eval key_of_def Let_def
       ToAPIVersionAndKind_def config_object_fields)

text \<open>
  C6 (shape of the desired chunks) fails on the code in two data fields. The manifest of
  the ConfigMap \<open>cm-43814\<close> has the API version \<open>v1\<close> and the kind \<open>ConfigMap\<close>. The
  builder returns one ConfigMap for it, whose field \<open>object-kind\<close> holds \<open>v1\<close> and
  whose field \<open>object-apiversion\<close> holds \<open>ConfigMap\<close>: \<open>getDesiredConfigMaps\<close> binds
  the results of \<open>ToAPIVersionAndKind\<close> as \<open>kind, apiVersion\<close>, where \<open>Run\<close> binds
  them as \<open>apiVersion, kind\<close>.
\<close>

theorem kind_and_apiversion_fields_are_exchanged:
  "GetGroupVersionKind example_externals (config_object ''cm-43814'') =
     \<lparr> Group = [], Version = ''v1'', Kind = ''ConfigMap'' \<rparr> \<and>
   map_sum id length
     (getDesiredConfigMaps example_externals example_unpacker example_bundle
        ''registry/bundle@sha256:1111'' [config_object ''cm-43814'']) = Inr 1 \<and>
   lookup (Data (projr
     (getDesiredConfigMaps example_externals example_unpacker example_bundle
        ''registry/bundle@sha256:1111'' [config_object ''cm-43814'']) ! 0)) ''object-kind'' =
     Some ''v1'' \<and>
   lookup (Data (projr
     (getDesiredConfigMaps example_externals example_unpacker example_bundle
        ''registry/bundle@sha256:1111'' [config_object ''cm-43814'']) ! 0))
     ''object-apiversion'' = Some ''ConfigMap''"
  by (simp add: getDesiredConfigMaps_def desired_configmap_def example_externals_def
       example_unpacker_def digest_1 hex_eval Let_def ToAPIVersionAndKind_def
       config_object_fields lookup_def)

text \<open>
  The rest of the shape holds for every input. When every object can be marshalled,
  hashed and compressed and the owner reference can be set, the builder returns a list.
  Whenever it returns a list, every object was marshalled, hashed and compressed, the list
  has one ConfigMap for each object, in the order of the objects, and the ConfigMap of an
  object has the name \<open>bundle-object-\<close>, the bundle name, \<open>-\<close> and the first 8
  hexadecimal characters of the SHA-256 of the object's encoding (the bundle name is the
  unpacker's, under which \<open>Run\<close> has fetched the bundle); the unpacker's namespace; the
  label \<open>kuberpak.io/bundle-name\<close> with the bundle name; the six data fields, of which
  the image, the hash, the name and the namespace hold what their names say; the binary
  field \<open>object\<close> with the gzip-compressed encoding; and the immutable flag.
\<close>

theorem desired_configmaps_shape:
  "((\<forall>obj \<in> set objects. buildable ext obj) \<and>
    (\<forall>cm. \<exists>refs. SetControllerReference ext bundle cm = Inr refs) \<longrightarrow>
      (\<exists>cms. getDesiredConfigMaps ext u bundle resolvedImage objects = Inr cms)) \<and>
   (\<forall>cms. getDesiredConfigMaps ext u bundle resolvedImage objects = Inr cms \<longrightarrow>
      length cms = length objects \<and>
      (\<forall>i < length objects.
         buildable ext (objects ! i) \<and>
         Name (cms ! i) =
           ''bundle-object-'' @ BundleName u @ ''-'' @ take 8 (object_hash ext (objects ! i)) \<and>
         length (take 8 (object_hash ext (objects ! i))) = 8 \<and>
         Namespace (cms ! i) = Namespace_u u \<and>
         lookup (Labels (cms ! i)) ''kuberpak.io/bundle-name'' = Some (BundleName u) \<and>
         map fst (entries (Data (cms ! i))) =
           [''bundle-image'', ''object-sha256'', ''object-kind'', ''object-apiversion'',
            ''object-name'', ''object-namespace''] \<and>
         lookup (Data (cms ! i)) ''bundle-image'' = Some resolvedImage \<and>
         lookup (Data (cms ! i)) ''object-sha256'' = Some (object_hash ext (objects ! i)) \<and>
         lookup (Data (cms ! i)) ''object-name'' = Some (GetName ext (objects ! i)) \<and>
         lookup (Data (cms ! i)) ''object-namespace'' = Some (GetNamespace ext (objects ! i)) \<and>
         entries (BinaryData (cms ! i)) = [(''object'', object_payload ext (objects ! i))] \<and>
         Immutable (cms ! i) = Some True))"
proof -
  have total: "\<exists>cms. getDesiredConfigMaps ext u bundle resolvedImage objects = Inr cms"
    if ok: "(\<forall>obj \<in> set objects. buildable ext obj) \<and>
      (\<forall>cm. \<exists>refs. SetControllerReference ext bundle cm = Inr refs)"
  proof -
    have "\<exists>cm. desired_configmap ext u bundle resolvedImage obj = Inr cm"
      if "obj \<in> set objects" for obj
      using ok that by (intro desired_configmap_buildable) auto
    then show ?thesis
      unfolding getDesiredConfigMaps_def by (rule getDesiredConfigMaps_loop_total)
  qed
  have shape: "length cms = length objects \<and>
      (\<forall>i < length objects.
         buildable ext (objects ! i) \<and>
         Name (cms ! i) =
           ''bundle-object-'' @ BundleName u @ ''-'' @ take 8 (object_hash ext (objects ! i)) \<and>
         length (take 8 (object_hash ext (objects ! i))) = 8 \<and>
         Namespace (cms ! i) = Namespace_u u \<and>
         lookup (Labels (cms ! i)) ''kuberpak.io/bundle-name'' = Some (BundleName u) \<and>
         map fst (entries (Data (cms ! i))) =
           [''bundle-image'', ''object-sha256'', ''object-kind'', ''object-apiversion'',
            ''object-name'', ''object-namespace''] \<and>
         lookup (Data (cms ! i)) ''bundle-image'' = Some resolvedImage \<and>
         lookup (Data (cms ! i)) ''object-sha256'' = Some (object_hash ext (objects ! i)) \<and>
         lookup (Data (cms ! i)) ''object-name'' = Some (GetName ext (objects ! i)) \<and>
         lookup (Data (cms ! i)) ''object-namespace'' = Some (GetNamespace ext (objects ! i)) \<and>
         entries (BinaryData (cms ! i)) = [(''object'', object_payload ext (objects ! i))] \<and>
         Immutable (cms ! i) = Some True)"
    if run: "getDesiredConfigMaps ext u bundle resolvedImage objects = Inr cms" for cms
  proof (intro conjI allI impI)
    show "length cms = length objects"
      using getDesiredConfigMaps_Inr[OF run] by simp
  next
    fix i assume i: "i < length objects"
    have cm: "desired_configmap ext u bundle resolvedImage (objects ! i) = Inr (cms ! i)"
      using getDesiredConfigMaps_Inr[OF run] i by simp
    note one = desired_configmap_Inr[OF cm]
    show "buildable ext (objects ! i)"
      "Name (cms ! i) =
           ''bundle-object-'' @ BundleName u @ ''-'' @ take 8 (object_hash ext (objects ! i))"
      "length (take 8 (object_hash ext (objects ! i))) = 8"
      "Namespace (cms ! i) = Namespace_u u"
      "lookup (Labels (cms ! i)) ''kuberpak.io/bundle-name'' = Some (BundleName u)"
      "map fst (entries (Data (cms ! i))) =
           [''bundle-image'', ''object-sha256'', ''object-kind'', ''object-apiversion'',
            ''object-name'', ''object-namespace'']"
      "lookup (Data (cms ! i)) ''bundle-image'' = Some resolvedImage"
      "lookup (Data (cms ! i)) ''object-sha256'' = Some (object_hash ext (objects ! i))"
      "lookup (Data (cms ! i)) ''object-name'' = Some (GetName ext (objects ! i))"
      "lookup (Data (cms ! i)) ''object-namespace'' = Some (GetNamespace ext (objects ! i))"
      "entries (BinaryData (cms ! i)) = [(''object'', object_payload ext (objects ! i))]"
      "Immutable (cms ! i) = Some True"
      using one by (simp_all add: lookup_def)
  qed
  show ?thesis using total shape by blast
qed

text \<open>The theorem at the manifest of the ConfigMap \<open>cm-43814\<close>.\<close>

theorem desired_configmaps_shape_witness:
  "buildable example_externals (config_object ''cm-43814'') \<and>
   (\<exists>cms. getDesiredConfigMaps example_externals example_unpacker example_bundle
            ''registry/bundle@sha256:1111'' [config_object ''cm-43814''] = Inr cms \<and>
          length cms = 1 \<and>
          Name (cms ! 0) = ''bundle-object-mybundle-6c7a6e11'' \<and>
          Namespace (cms ! 0) = ''kuberpak-system'' \<and>
          lookup (Labels (cms ! 0)) ''kuberpak.io/bundle-name'' = Some ''mybundle'' \<and>
          lookup (Data (cms ! 0)) ''bundle-image'' = Some ''registry/bundle@sha256:1111'' \<and>
          lookup (Data (cms ! 0)) ''object-sha256'' =
            Some ''6c7a6e1112b8212290fde4ef0d8f2d809d98805a4415a9ddce8db1d040828f46'' \<and>
          lookup (Data (cms ! 0)) ''object-name'' = Some ''cm-43814'' \<and>
          entries (BinaryData (cms ! 0)) =
            [(''object'', 0x1f # 0x8b # object_yaml (config_object ''cm-43814''))])"
proof -
  let ?objects = "[config_object ''cm-43814'']"
  note inst = desired_configmaps_shape
    [of ?objects example_externals example_bundle example_unpacker
        "''registry/bundle@sha256:1111''"]
  have "\<forall>obj \<in> set ?objects. buildable example_externals obj"
    using buildable_examples by simp
  with inst[THEN conjunct1] example_owner obtain cms where
    run: "getDesiredConfigMaps example_externals example_unpacker example_bundle
            ''registry/bundle@sha256:1111'' ?objects = Inr cms" by blast
  from inst[THEN conjunct2, rule_format, OF run]
  have len: "length cms = length ?objects"
    and one: "\<forall>i<length ?objects.
         buildable example_externals (?objects ! i) \<and>
         Name (cms ! i) =
           ''bundle-object-'' @ BundleName example_unpacker @ ''-'' @
           take 8 (object_hash example_externals (?objects ! i)) \<and>
         length (take 8 (object_hash example_externals (?objects ! i))) = 8 \<and>
         Namespace (cms ! i) = Namespace_u example_unpacker \<and>
         lookup (Labels (cms ! i)) ''kuberpak.io/bundle-name'' =
           Some (BundleName example_unpacker) \<and>
         map fst (entries (Data (cms ! i))) =
           [''bundle-image'', ''object-sha256'', ''object-kind'', ''object-apiversion'',
            ''object-name'', ''object-namespace''] \<and>
         lookup (Data (cms ! i)) ''bundle-image'' = Some ''registry/bundle@sha256:1111'' \<and>
         lookup (Data (cms ! i)) ''object-sha256'' =
           Some (object_hash example_externals (?objects ! i)) \<and>
         lookup (Data (cms ! i)) ''object-name'' = Some (GetName example_externals (?objects ! i)) \<and>
         lookup (Data (cms ! i)) ''object-namespace'' =
           Some (GetNamespace example_externals (?objects ! i)) \<and>
         entries (BinaryData (cms ! i)) =
           [(''object'', object_payload example_externals (?objects ! i))] \<and>
         Immutable (cms ! i) = Some True"
    by blast+
  from one[rule_format, of 0] len run buildable_examples(1) show ?thesis
    by (simp add: hash_1 payload_1 example_unpacker_def)
       (simp add: example_externals_def config_object_fields)
qed

section \<open>Properties of the loader\<close>

lemma decode_loop_ok:
  "list_all is_document ds \<Longrightarrow> decode_loop ds objects = Inr (objects @ documents_of ds)"
  by (induction ds objects rule: decode_loop.induct) simp_all

lemma decode_loop_malformed:
  "list_all is_document ds1 \<Longrightarrow>
     decode_loop (ds1 @ Malformed err # ds2) objects = Inl err"
  by (induction ds1 objects rule: decode_loop.induct) simp_all

lemma decode_loop_Inr:
  "decode_loop ds objects = Inr objects' \<Longrightarrow> list_all is_document ds"
  by (induction ds objects rule: decode_loop.induct) simp_all

lemma getObjects_loop_ok:
  "list_all (loadable fs dec) (files es) \<Longrightarrow>
     getObjects_loop fs dec es objects =
       Inr (objects @ concat (map (entry_documents fs dec) (files es)))"
proof (induction es arbitrary: objects)
  case Nil
  then show ?case by (simp add: files_def)
next
  case (Cons e rest)
  show ?case
  proof (cases "IsDir e")
    case True
    with Cons show ?thesis by (simp add: files_def)
  next
    case False
    with Cons.prems have e: "loadable fs dec e"
      and rest: "list_all (loadable fs dec) (files rest)"
      by (simp_all add: files_def)
    from e obtain fileData where
      f: "ReadFile fs (entry_Name e) = Inr fileData" "list_all is_document (dec fileData)"
      by (auto simp add: loadable_def split: sum.splits)
    from Cons.IH[OF rest] f False show ?thesis
      by (simp add: files_def entry_documents_def decode_loop_ok)
  qed
qed

lemma getObjects_loop_Inr:
  "getObjects_loop fs dec es objects = Inr objects' \<Longrightarrow>
     list_all (loadable fs dec) (files es)"
proof (induction es arbitrary: objects)
  case Nil
  then show ?case by (simp add: files_def)
next
  case (Cons e rest)
  show ?case
  proof (cases "IsDir e")
    case True
    with Cons show ?thesis by (simp add: files_def)
  next
    case False
    with Cons.prems obtain fileData objects1 where
      f: "ReadFile fs (entry_Name e) = Inr fileData"
        "decode_loop (dec fileData) objects = Inr objects1"
        "getObjects_loop fs dec rest objects1 = Inr objects'"
      by (auto split: sum.splits)
    from Cons.IH[OF f(3)] decode_loop_Inr[OF f(2)] f(1) False show ?thesis
      by (simp add: files_def loadable_def)
  qed
qed

lemma getObjects_loop_malformed:
  assumes "list_all (loadable fs dec) (files es1)" "\<not> IsDir e"
    and "ReadFile fs (entry_Name e) = Inr fileData"
    and "dec fileData = ds1 @ Malformed err # ds2" "list_all is_document ds1"
  shows "getObjects_loop fs dec (es1 @ e # es2) objects = Inl err"
  using assms(1)
proof (induction es1 arbitrary: objects)
  case Nil
  show ?case using assms(2-5) by (simp add: decode_loop_malformed)
next
  case (Cons e1 rest)
  show ?case
  proof (cases "IsDir e1")
    case True
    with Cons show ?thesis by (simp add: files_def)
  next
    case False
    with Cons.prems have e1: "loadable fs dec e1"
      and rest: "list_all (loadable fs dec) (files rest)"
      by (simp_all add: files_def)
    from e1 obtain fileData1 where
      f: "ReadFile fs (entry_Name e1) = Inr fileData1" "list_all is_document (dec fileData1)"
      by (auto simp add: loadable_def split: sum.splits)
    from Cons.IH[OF rest] f False show ?thesis
      by (simp add: decode_loop_ok)
  qed
qed

section \<open>The loader: the claims\<close>

text \<open>
  C7 (the loader fails fast), as amended. Let the directory be readable. If every entry
  that is not a directory can be read and holds no malformed document, \<open>getObjects\<close>
  returns the documents of all those entries, in the order of the entries and, within an
  entry, of its documents; and \<open>getObjects\<close> returns objects in no other case. At the
  first malformed document (every earlier entry loads, and every earlier document of the
  same entry is decoded) it returns the decoder's error as it is, and no objects.
\<close>

theorem getObjects_all_or_nothing:
  assumes "ReadDir fs = Inr es"
  shows "(list_all (loadable fs dec) (files es) \<longrightarrow>
            getObjects fs dec = Inr (concat (map (entry_documents fs dec) (files es)))) \<and>
         (\<forall>objects. getObjects fs dec = Inr objects \<longrightarrow> list_all (loadable fs dec) (files es)) \<and>
         (\<forall>es1 e es2 fileData ds1 err ds2.
            es = es1 @ e # es2 \<and> list_all (loadable fs dec) (files es1) \<and> \<not> IsDir e \<and>
            ReadFile fs (entry_Name e) = Inr fileData \<and>
            dec fileData = ds1 @ Malformed err # ds2 \<and> list_all is_document ds1 \<longrightarrow>
            getObjects fs dec = Inl err)"
  using assms
  by (auto simp add: getObjects_def getObjects_loop_ok getObjects_loop_malformed
      dest: getObjects_loop_Inr)

text \<open>
  The theorem at a directory with a subdirectory and two files, once with three good
  documents and once with a malformed document in the second file.
\<close>

theorem getObjects_all_or_nothing_witness:
  "getObjects example_manifests example_decoder =
     Inr [''Deployment'', ''ServiceAccount'', ''Service''] \<and>
   getObjects example_manifests broken_decoder =
     Inl ''error converting YAML to JSON: yaml: line 3: could not find expected key''"
proof -
  let ?es = "[\<lparr> entry_Name = ''crds'', IsDir = True \<rparr>,
              \<lparr> entry_Name = ''deployment.yaml'', IsDir = False \<rparr>,
              \<lparr> entry_Name = ''service.yaml'', IsDir = False \<rparr>]"
  have dir: "ReadDir example_manifests = Inr ?es" by (simp add: example_manifests_def)
  have ok: "list_all (loadable example_manifests example_decoder) (files ?es)"
    by (simp add: files_def loadable_def example_manifests_def example_decoder_def)
  have docs: "concat (map (entry_documents example_manifests example_decoder) (files ?es)) =
      [''Deployment'', ''ServiceAccount'', ''Service'']"
    by (simp add: files_def entry_documents_def example_manifests_def example_decoder_def)
  have bad: "?es = [\<lparr> entry_Name = ''crds'', IsDir = True \<rparr>,
              \<lparr> entry_Name = ''deployment.yaml'', IsDir = False \<rparr>] @
              \<lparr> entry_Name = ''service.yaml'', IsDir = False \<rparr> # [] \<and>
      list_all (loadable example_manifests broken_decoder)
        (files [\<lparr> entry_Name = ''crds'', IsDir = True \<rparr>,
              \<lparr> entry_Name = ''deployment.yaml'', IsDir = False \<rparr>]) \<and>
      \<not> IsDir \<lparr> entry_Name = ''service.yaml'', IsDir = False \<rparr> \<and>
      ReadFile example_manifests (entry_Name \<lparr> entry_Name = ''service.yaml'', IsDir = False \<rparr>)
        = Inr [2] \<and>
      broken_decoder [2] = [Document ''Service''] @
         Malformed ''error converting YAML to JSON: yaml: line 3: could not find expected key''
         # [Document ''Role''] \<and>
      list_all is_document [Document ''Service'' :: string decoded]"
    by (simp add: files_def loadable_def example_manifests_def broken_decoder_def)
  from getObjects_all_or_nothing[OF dir, of example_decoder, THEN conjunct1] ok docs
  have one: "getObjects example_manifests example_decoder =
     Inr [''Deployment'', ''ServiceAccount'', ''Service'']" by simp
  from getObjects_all_or_nothing[OF dir, of broken_decoder, THEN conjunct2, THEN conjunct2,
      rule_format, OF bad]
  have two: "getObjects example_manifests broken_decoder =
     Inl ''error converting YAML to JSON: yaml: line 3: could not find expected key''" .
  show ?thesis using one two by simp
qed

text \<open>
  C7 as stated fails where it says that the error names the source entry: the decoder is
  given the bytes of the file only, and \<open>getObjects\<close> returns its error unchanged. The
  malformed document is in \<open>service.yaml\<close>; the error does not mention that name.
\<close>

theorem decode_error_without_entry_name:
  "getObjects example_manifests broken_decoder =
     Inl ''error converting YAML to JSON: yaml: line 3: could not find expected key'' \<and>
   \<not> sublist ''service.yaml''
       ''error converting YAML to JSON: yaml: line 3: could not find expected key''"
  by (simp add: getObjects_def example_manifests_def broken_decoder_def sublist_Cons_right)

end
